theory Spec2Isabelle
  imports Main "HOL-Library.Multiset" "HOL-Library.AList"
begin

section \<open>Errors, settled promises and results\<close>

text \<open>
  Everything that the fetchers of \<^verbatim>\<open>entities/wallets/data.ts\<close> and
  \<^verbatim>\<open>content_script/index.ts\<close> can throw or return as a failure.
  \<^item> \<open>NoneError\<close>: \<^verbatim>\<open>Option.wrap(brume[chainId]).ok()\<close> on a missing entry;
  \<^item> \<open>SlotError\<close>: a pool slot that holds no usable entry (\<^verbatim>\<open>tryGet(i)\<close> unwraps to a throw);
  \<^item> \<open>EmptyPoolError\<close>: \<^verbatim>\<open>tryGetCryptoRandom()\<close> on a pool without usable entries;
  \<^item> \<open>TransportError\<close>: the \<open>Err\<close> of \<^verbatim>\<open>TorRpc.tryFetchWithCircuit\<close> / \<^verbatim>\<open>tryFetchWithSocket\<close>;
  \<^item> \<open>Panic\<close>: \<^verbatim>\<open>throw new Panic()\<close>;
  \<^item> \<open>CouldNotChooseTruth\<close>: \<^verbatim>\<open>throw new Error(`Could not choose truth`)\<close>;
  \<^item> \<open>Undefined\<close>: the value \<^verbatim>\<open>undefined\<close> that \<^verbatim>\<open>fetcheds.get(key)!\<close> would produce on a
    missing key;
  \<^item> \<open>AggregateError\<close>: the rejection of \<^verbatim>\<open>Promise.any\<close>, with the reasons in index order;
  \<^item> \<open>TooManyRetriesError\<close>: a retry loop that used up its attempts.
\<close>

datatype err =
    NoneError
  | SlotError string
  | EmptyPoolError
  | TransportError string
  | Panic
  | CouldNotChooseTruth
  | Undefined
  | AggregateError "err list"
  | TooManyRetriesError "err list"

text \<open>
  An element of the array that \<^verbatim>\<open>Promise.allSettled\<close> resolves to: \<open>Rejected e\<close> is
  \<^verbatim>\<open>{ status: "rejected", reason: e }\<close>, \<open>Fulfilled v\<close> is
  \<^verbatim>\<open>{ status: "fulfilled", value: v }\<close>. An async function that throws \<open>e\<close> is \<open>Rejected e\<close>.
\<close>

type_synonym 'v settled = "err + 'v"

abbreviation Rejected :: "err \<Rightarrow> 'v settled" where
  "Rejected \<equiv> Inl"

abbreviation Fulfilled :: "'v \<Rightarrow> 'v settled" where
  "Fulfilled \<equiv> Inr"

text \<open>\<^verbatim>\<open>Result<T, E>\<close> of the result library: \<^verbatim>\<open>Ok\<close> or \<^verbatim>\<open>Err\<close>.\<close>

datatype ('v, 'e) result = Ok 'v | Err 'e

text \<open>How a call ends for its caller: with a value, or with an exception that escapes.\<close>

datatype 'a completion = Returns 'a | Throws err

section \<open>The tally\<close>

text \<open>
  A JavaScript \<^verbatim>\<open>Map\<close> iterates in insertion order and \<^verbatim>\<open>set\<close> on a present key keeps the
  key's position: an association list with \<^const>\<open>AList.update\<close> for \<^verbatim>\<open>set\<close> and
  \<^const>\<open>map_of\<close> for \<^verbatim>\<open>get\<close>; \<^verbatim>\<open>size\<close> is its length.

  One turn of
  \<^verbatim>\<open>
  for (const result of results) {
    if (result.status === "rejected")
      continue
    const raw = JSON.stringify(result.value.inner)
    const previous = Option.wrap(counters.get(raw)).unwrapOr(0)
    counters.set(raw, previous + 1)
    fetcheds.set(raw, result.value)
  }
  \<close>
  on the pair \<open>(fetcheds, counters)\<close>. The parameter \<open>raw\<close> is
  \<^verbatim>\<open>v => JSON.stringify(v.inner)\<close>; its result type \<open>'k\<close> is left open (a string, or
  \<^verbatim>\<open>undefined\<close>).
\<close>

fun tally_step ::
  "('v \<Rightarrow> 'k) \<Rightarrow> ('k \<times> 'v) list \<times> ('k \<times> nat) list \<Rightarrow> 'v settled
    \<Rightarrow> ('k \<times> 'v) list \<times> ('k \<times> nat) list" where
  "tally_step raw (fetcheds, counters) (Rejected e) = (fetcheds, counters)"
| "tally_step raw (fetcheds, counters) (Fulfilled v) =
     (let previous = (case map_of counters (raw v) of None \<Rightarrow> 0 | Some n \<Rightarrow> n)
      in (AList.update (raw v) v fetcheds, AList.update (raw v) (previous + 1) counters))"

definition tally ::
  "('v \<Rightarrow> 'k) \<Rightarrow> 'v settled list \<Rightarrow> ('k \<times> 'v) list \<times> ('k \<times> nat) list" where
  "tally raw results = foldl (tally_step raw) ([], []) results"

text \<open>
  \<^verbatim>\<open>Promise.any(promises)\<close> once every promise has settled: the reactions run in index
  order, so the first fulfilled promise gives the value; with none fulfilled (also with no
  promise at all) it rejects with an \<^verbatim>\<open>AggregateError\<close> of all the reasons.
\<close>

fun rejections :: "'v settled list \<Rightarrow> err list" where
  "rejections [] = []"
| "rejections (Rejected e # rs) = e # rejections rs"
| "rejections (Fulfilled v # rs) = rejections rs"

fun fulfilleds :: "'v settled list \<Rightarrow> 'v list" where
  "fulfilleds [] = []"
| "fulfilleds (Rejected e # rs) = fulfilleds rs"
| "fulfilleds (Fulfilled v # rs) = v # fulfilleds rs"

definition promise_any :: "'v settled list \<Rightarrow> 'v settled" where
  "promise_any results =
     (case fulfilleds results of
        [] \<Rightarrow> Rejected (AggregateError (rejections results))
      | v # _ \<Rightarrow> Fulfilled v)"

section \<open>The vote\<close>

text \<open>
  The code after \<^verbatim>\<open>Promise.allSettled\<close>, which \<^verbatim>\<open>tryEthereumFetch\<close> has twice in the same
  words: in \<^verbatim>\<open>runWithPoolOrThrow\<close> over the connections of a circuit, and in the body over the
  circuits.
  \<^verbatim>\<open>
  if (counters.size < 2)
    return await Promise.any(promises)
  const sorteds = [...Maps.entries(counters)].sort((a, b) => b.value - a.value)
  if (sorteds[0].value === sorteds[1].value)
    throw new Error(`Could not choose truth`)
  return fetcheds.get(sorteds[0].key)!
  \<close>
  \<^verbatim>\<open>Array.prototype.sort\<close> is stable, and so is \<^const>\<open>sort_key\<close>; the comparator
  \<^verbatim>\<open>b.value - a.value\<close> orders by descending count, that is by ascending negated count.
  In the last branch \<open>sorteds\<close> has at least two elements, so both reads are in range.
\<close>

definition sorteds_of :: "('k \<times> nat) list \<Rightarrow> ('k \<times> nat) list" where
  "sorteds_of counters = sort_key (\<lambda>e. - int (snd e)) counters"

definition consensus :: "('v \<Rightarrow> 'k) \<Rightarrow> 'v settled list \<Rightarrow> 'v settled" where
  "consensus raw results =
     (let (fetcheds, counters) = tally raw results in
      if length counters < 2 then promise_any results
      else
        let sorteds = sorteds_of counters in
        if snd (sorteds ! 0) = snd (sorteds ! 1) then Rejected CouldNotChooseTruth
        else (case map_of fetcheds (fst (sorteds ! 0)) of
                None \<Rightarrow> Rejected Undefined
              | Some v \<Rightarrow> Fulfilled v))"

text \<open>
  The multiset of canonical serialisations of the successful outcomes, and with it the
  occurrence count \<open>count (payloads raw results) k\<close> of a payload \<open>k\<close>: the tally of
  an outcome multiset, as the specification speaks of it.
\<close>

definition payloads :: "('v \<Rightarrow> 'k) \<Rightarrow> 'v settled list \<Rightarrow> 'k multiset" where
  "payloads raw results = mset (map raw (fulfilleds results))"

text \<open>
  What a caller can observe of one round: the accepted payload up to its serialisation, or
  the kind of failure.
\<close>

datatype 'k verdict = Trusted 'k | NoResponses | AmbiguousConsensus | OtherFailure

fun verdict_of :: "('v \<Rightarrow> 'k) \<Rightarrow> 'v settled \<Rightarrow> 'k verdict" where
  "verdict_of raw (Fulfilled v) = Trusted (raw v)"
| "verdict_of raw (Rejected (AggregateError es)) = NoResponses"
| "verdict_of raw (Rejected CouldNotChooseTruth) = AmbiguousConsensus"
| "verdict_of raw (Rejected e) = OtherFailure"

section \<open>Connections, pools and the directory\<close>

text \<open>
  \<^verbatim>\<open>RpcConnection\<close>: a URL with its circuit (\<^verbatim>\<open>isURL()\<close>) or a socket with its circuit
  (\<^verbatim>\<open>isWebSocket()\<close>), each circuit named by its id. The type of the source has only these
  two; \<open>Neither\<close> stands for a value that passes neither test, for which the source has
  \<^verbatim>\<open>throw new Panic()\<close>.
\<close>

datatype rpc_connection = URL string string | WebSocket string string | Neither

text \<open>
  A pool entry's \<^verbatim>\<open>inner\<close>: \<^verbatim>\<open>const { counter, connection } = conn\<close>
  (\<^verbatim>\<open>{ client, connection }\<close> in the content script). \<^verbatim>\<open>counter.prepare(init)\<close> pairs the
  request with the counter's id.
\<close>

record entry =
  counter :: nat
  connection :: rpc_connection

type_synonym 'q request = "nat \<times> 'q"

definition prepare :: "nat \<Rightarrow> 'q \<Rightarrow> 'q request" where
  "prepare c init = (c, init)"

text \<open>
  A JSON-RPC response and the \<^verbatim>\<open>Fetched\<close> that \<^verbatim>\<open>Fetched.rewrap\<close> makes of it:
  \<^verbatim>\<open>Data\<close> of a result, \<^verbatim>\<open>Fail\<close> of an error, both with the payload as \<^verbatim>\<open>inner\<close>.
\<close>

datatype 'j rpc_response = RpcOk 'j | RpcErr 'j

datatype 'j fetched = Data 'j | Fail 'j

fun inner :: "'j fetched \<Rightarrow> 'j" where
  "inner (Data x) = x"
| "inner (Fail x) = x"

fun rewrap :: "'j rpc_response \<Rightarrow> 'j fetched" where
  "rewrap (RpcOk x) = Data x"
| "rewrap (RpcErr x) = Fail x"

text \<open>
  What the fetcher borrows from outside: the two transports of \<^verbatim>\<open>TorRpc\<close>, each returning
  the \<^verbatim>\<open>Result\<close> of one exchange (a timeout or an abort is an \<open>Inl\<close>), and
  \<^verbatim>\<open>JSON.stringify\<close>.
\<close>

record ('q, 'j, 'k) env =
  tryFetchWithCircuit :: "string \<Rightarrow> string \<Rightarrow> 'q request \<Rightarrow> err + 'j rpc_response"
  tryFetchWithSocket :: "string \<Rightarrow> 'q request \<Rightarrow> err + 'j rpc_response"
  stringify :: "'j \<Rightarrow> 'k"

definition raw_of :: "('q, 'j, 'k) env \<Rightarrow> 'j fetched \<Rightarrow> 'k" where
  "raw_of E v = stringify E (inner v)"

text \<open>The transport calls made, in the order of the indices.\<close>

datatype 'q event =
    FetchWithCircuit string string "'q request"
  | FetchWithSocket string "'q request"

text \<open>
  A \<^verbatim>\<open>Pool\<close> of fixed capacity: one slot per index, holding an entry or the error that
  \<^verbatim>\<open>tryGet(index).then(r => r.unwrap().unwrap().inner)\<close> throws for it.
\<close>

type_synonym 'a pool = "(err + 'a) list"

definition capacity :: "'a pool \<Rightarrow> nat" where
  "capacity pool = length pool"

definition tryGet :: "'a pool \<Rightarrow> nat \<Rightarrow> err + 'a" where
  "tryGet pool index =
     (if index < length pool then pool ! index else Inl (SlotError ''empty slot''))"

text \<open>\<^verbatim>\<open>EthereumContext\<close>: \<^verbatim>\<open>ethereum.chain.chainId\<close> and \<^verbatim>\<open>ethereum.brume\<close>.\<close>

record ethereum_context =
  chainId :: int
  brume :: "int \<rightharpoonup> entry pool pool"

section \<open>The consensus fetch: \<^verbatim>\<open>tryEthereumFetch\<close> of \<^verbatim>\<open>entities/wallets/data.ts\<close>\<close>

text \<open>
  \<^verbatim>\<open>runWithConnOrThrow(index)\<close>: the settled outcome of one connection, with the transport
  call it made. \<^verbatim>\<open>result.unwrap()\<close> throws the transport's error.
\<close>

definition unwrap_rewrap :: "err + 'j rpc_response \<Rightarrow> 'j fetched settled" where
  "unwrap_rewrap result =
     (case result of Inl e \<Rightarrow> Rejected e | Inr response \<Rightarrow> Fulfilled (rewrap response))"

definition runWithConnOrThrow ::
  "('q, 'j, 'k) env \<Rightarrow> 'q \<Rightarrow> entry pool \<Rightarrow> nat \<Rightarrow> 'j fetched settled \<times> 'q event list" where
  "runWithConnOrThrow E init pool index =
     (case tryGet pool index of
        Inl e \<Rightarrow> (Rejected e, [])
      | Inr conn \<Rightarrow>
          let request = prepare (counter conn) init in
          (case connection conn of
             URL url circuit \<Rightarrow>
               (unwrap_rewrap (tryFetchWithCircuit E url circuit request),
                [FetchWithCircuit url circuit request])
           | WebSocket socket circuit \<Rightarrow>
               (unwrap_rewrap (tryFetchWithSocket E socket request),
                [FetchWithSocket socket request])
           | Neither \<Rightarrow> (Rejected Panic, [])))"

text \<open>The transport call that a usable slot's connection is due, as a list of events.\<close>

definition transport_call :: "'q \<Rightarrow> err + entry \<Rightarrow> 'q event list" where
  "transport_call init slot =
     (case slot of
        Inl e \<Rightarrow> []
      | Inr conn \<Rightarrow>
          (case connection conn of
             URL url circuit \<Rightarrow> [FetchWithCircuit url circuit (prepare (counter conn) init)]
           | WebSocket socket circuit \<Rightarrow> [FetchWithSocket socket (prepare (counter conn) init)]
           | Neither \<Rightarrow> []))"

text \<open>
  \<^verbatim>\<open>runWithPoolOrThrow(index)\<close>: one promise per index below \<^verbatim>\<open>pool.capacity\<close>, all
  settled, then the vote.
\<close>

definition runWithPoolOrThrow ::
  "('q, 'j, 'k) env \<Rightarrow> 'q \<Rightarrow> entry pool pool \<Rightarrow> nat \<Rightarrow> 'j fetched settled \<times> 'q event list" where
  "runWithPoolOrThrow E init pools index =
     (case tryGet pools index of
        Inl e \<Rightarrow> (Rejected e, [])
      | Inr pool \<Rightarrow>
          let promises = map (runWithConnOrThrow E init pool) [0..<capacity pool] in
          (consensus (raw_of E) (map fst promises), concat (map snd promises)))"

text \<open>
  The callback given to \<^verbatim>\<open>Result.runAndDoubleWrap\<close>: \<open>Rejected e\<close> is a throw of \<open>e\<close>.
\<close>

definition fetch_body ::
  "('q, 'j, 'k) env \<Rightarrow> ethereum_context \<Rightarrow> 'q \<Rightarrow> 'j fetched settled \<times> 'q event list" where
  "fetch_body E ethereum init =
     (case brume ethereum (chainId ethereum) of
        None \<Rightarrow> (Rejected NoneError, [])
      | Some pools \<Rightarrow>
          let promises = map (runWithPoolOrThrow E init pools) [0..<capacity pools] in
          (consensus (raw_of E) (map fst promises), concat (map snd promises)))"

text \<open>
  Modelled from the spec: \<^verbatim>\<open>Result.runAndDoubleWrap(callback)\<close>, a function of the result
  library that is not among the sources. The specification has the fetch answer its caller
  with \<^verbatim>\<open>Success(payload) | Failure(kind)\<close> and report a disagreement or a total failure
  upward verbatim: so \<^verbatim>\<open>Ok\<close> of what the callback returns and \<^verbatim>\<open>Err\<close> of what it throws.
  The source wraps every \<^verbatim>\<open>...OrThrow\<close> function in it to get its \<^verbatim>\<open>try...\<close> twin.
\<close>

definition runAndDoubleWrap :: "'v settled \<Rightarrow> ('v, err) result completion" where
  "runAndDoubleWrap outcome =
     (case outcome of Rejected e \<Rightarrow> Returns (Err e) | Fulfilled v \<Rightarrow> Returns (Ok v))"

definition tryEthereumFetch ::
  "('q, 'j, 'k) env \<Rightarrow> ethereum_context \<Rightarrow> 'q
    \<Rightarrow> ('j fetched, err) result completion \<times> 'q event list" where
  "tryEthereumFetch E ethereum init =
     (let (outcome, events) = fetch_body E ethereum init
      in (runAndDoubleWrap outcome, events))"

text \<open>
  The promises that one call awaits before \<^verbatim>\<open>Promise.allSettled\<close> can resolve, named by the
  index of the circuit and of the connection: \<^verbatim>\<open>pools.tryGet(index)\<close>,
  \<^verbatim>\<open>pool.tryGet(index)\<close>, \<^verbatim>\<open>connection.cooldown\<close>, and the transport call.
\<close>

datatype await_point =
    PoolSlot nat
  | ConnSlot nat nat
  | Cooldown nat nat
  | Transport nat nat

text \<open>
  The awaits of \<^verbatim>\<open>runWithConnOrThrow(j)\<close> in circuit \<open>i\<close>, of \<^verbatim>\<open>runWithPoolOrThrow(i)\<close> and
  of the whole body, in the order of the indices. A socket's transport call comes after its
  cooldown.
\<close>

definition conn_awaits :: "nat \<Rightarrow> nat \<Rightarrow> err + entry \<Rightarrow> await_point list" where
  "conn_awaits i j slot =
     ConnSlot i j #
     (case slot of
        Inl e \<Rightarrow> []
      | Inr conn \<Rightarrow>
          (case connection conn of
             URL url circuit \<Rightarrow> [Transport i j]
           | WebSocket socket circuit \<Rightarrow> [Cooldown i j, Transport i j]
           | Neither \<Rightarrow> []))"

definition pool_awaits :: "nat \<Rightarrow> err + entry pool \<Rightarrow> await_point list" where
  "pool_awaits i slot =
     PoolSlot i #
     (case slot of
        Inl e \<Rightarrow> []
      | Inr pool \<Rightarrow> concat (map (\<lambda>j. conn_awaits i j (tryGet pool j)) [0..<capacity pool]))"

definition awaits_of :: "ethereum_context \<Rightarrow> await_point list" where
  "awaits_of ethereum =
     (case brume ethereum (chainId ethereum) of
        None \<Rightarrow> []
      | Some pools \<Rightarrow> concat (map (\<lambda>i. pool_awaits i (tryGet pools i)) [0..<capacity pools]))"

text \<open>
  The call as its caller sees it when a promise may stay pending for ever: an \<^verbatim>\<open>await\<close> of
  such a promise never resumes, and \<^verbatim>\<open>Promise.allSettled\<close> waits for every promise it is
  given, so the call returns exactly when every promise it awaits settles; \<open>None\<close> is a
  call that never returns. \<open>settles\<close> tells which promises settle.
\<close>

definition tryEthereumFetch_awaited ::
  "(await_point \<Rightarrow> bool) \<Rightarrow> ('q, 'j, 'k) env \<Rightarrow> ethereum_context \<Rightarrow> 'q
    \<Rightarrow> ('j fetched, err) result completion option" where
  "tryEthereumFetch_awaited settles E ethereum init =
     (if list_all settles (awaits_of ethereum)
      then Some (fst (tryEthereumFetch E ethereum init))
      else None)"

text \<open>
  The settled outcomes handed to the vote: of the circuits at the top level, of the
  connections within one circuit.
\<close>

definition circuit_outcomes ::
  "('q, 'j, 'k) env \<Rightarrow> 'q \<Rightarrow> entry pool pool \<Rightarrow> 'j fetched settled list" where
  "circuit_outcomes E init pools =
     map (\<lambda>i. fst (runWithPoolOrThrow E init pools i)) [0..<capacity pools]"

definition connection_outcomes ::
  "('q, 'j, 'k) env \<Rightarrow> 'q \<Rightarrow> entry pool \<Rightarrow> 'j fetched settled list" where
  "connection_outcomes E init pool =
     map (\<lambda>j. fst (runWithConnOrThrow E init pool j)) [0..<capacity pool]"

section \<open>The retry fetch: \<^verbatim>\<open>tryEthereumFetch\<close> of \<^verbatim>\<open>content_script/index.ts\<close>\<close>

text \<open>
  The sets \<^verbatim>\<open>allTriedPools\<close> and \<^verbatim>\<open>allTriedConns\<close> hold objects and compare them by
  identity, so a pool or a connection is a reference here, and what the code reads of the
  object behind it is a function of the reference: \<^verbatim>\<open>conns.capacity\<close> and the entry
  \<^verbatim>\<open>{ client, connection }\<close>.
\<close>

type_synonym ref = nat

record world =
  pool_capacity :: "ref \<Rightarrow> nat"
  conn_entry :: "ref \<Rightarrow> entry"

text \<open>\<^verbatim>\<open>Looped<E>\<close>: what a loop body answers when it has no value.\<close>

datatype looped = Retry err | Cancel err

text \<open>
  A JavaScript \<^verbatim>\<open>Set\<close> in insertion order: \<^verbatim>\<open>has\<close> is membership, \<^verbatim>\<open>add\<close> appends an
  absent element and leaves the set alone otherwise.
\<close>

definition set_add :: "'a list \<Rightarrow> 'a \<Rightarrow> 'a list" where
  "set_add s x = (if x \<in> set s then s else s @ [x])"

text \<open>
  \<^verbatim>\<open>
  while (true) {
    pool = await pools.tryGetCryptoRandom().then(r => r.mapErrSync(Cancel.new).throw(t).result.get().inner)
    if (allTriedPools.has(pool))
      continue
    allTriedPools.add(pool)
    break
  }
  \<close>
  and the same loop for \<^verbatim>\<open>conn\<close> and \<^verbatim>\<open>allTriedConns\<close>. The random draws are an oracle:
  the list of the answers that the successive calls of \<^verbatim>\<open>tryGetCryptoRandom()\<close> give. The
  loop may spin for ever on candidates already tried; \<open>None\<close> is a loop still spinning when
  the listed draws are used up. An \<open>Err\<close> draw leaves the body at once through
  \<^verbatim>\<open>throw(t)\<close>, as \<^verbatim>\<open>Err(Cancel(e))\<close>.
\<close>

fun select ::
  "ref list \<Rightarrow> (err + ref) list \<Rightarrow> ((looped + ref) \<times> ref list \<times> (err + ref) list) option" where
  "select tried [] = None"
| "select tried (Inl e # draws) = Some (Inl (Cancel e), tried, draws)"
| "select tried (Inr x # draws) =
     (if x \<in> set tried then select tried draws
      else Some (Inr x, set_add tried x, draws))"

text \<open>
  Modelled from the spec: \<^verbatim>\<open>tryLoop\<close> (a dependency, not in the sources at hand), the
  Retry/Exclusion Loop of the specification: at most \<open>max\<close> iterations; a value ends the
  loop; a transient failure (\<open>Retry\<close>) is recorded and the loop goes on; a fatal one
  (\<open>Cancel\<close>) aborts at once with that error; using up \<open>max\<close> gives a failure that lists
  every attempt's error. An exception of the body passes through.
\<close>

fun tryLoop ::
  "('s \<Rightarrow> (('v, looped) result completion \<times> 's) option) \<Rightarrow> nat \<Rightarrow> err list \<Rightarrow> 's
    \<Rightarrow> (('v, err) result completion \<times> 's) option" where
  "tryLoop looper 0 errors s = Some (Returns (Err (TooManyRetriesError errors)), s)"
| "tryLoop looper (Suc n) errors s =
     (case looper s of
        None \<Rightarrow> None
      | Some (Throws e, s') \<Rightarrow> Some (Throws e, s')
      | Some (Returns (Ok v), s') \<Rightarrow> Some (Returns (Ok v), s')
      | Some (Returns (Err (Cancel e)), s') \<Rightarrow> Some (Returns (Err e), s')
      | Some (Returns (Err (Retry e)), s') \<Rightarrow> tryLoop looper n (errors @ [e]) s')"

text \<open>
  \<^verbatim>\<open>result.mapSync(x => Fetched.rewrap(x)).mapErrSync(Retry.new)\<close> on a transport's result,
  and \<^verbatim>\<open>.then(r => r.mapErrSync(Retry.new))\<close> on the inner loop's.
\<close>

definition rewrap_or_retry :: "err + 'j rpc_response \<Rightarrow> ('j fetched, looped) result" where
  "rewrap_or_retry result =
     (case result of Inl e \<Rightarrow> Err (Retry e) | Inr response \<Rightarrow> Ok (rewrap response))"

fun mapErr_Retry :: "('v, err) result completion \<Rightarrow> ('v, looped) result completion" where
  "mapErr_Retry (Returns (Ok v)) = Returns (Ok v)"
| "mapErr_Retry (Returns (Err e)) = Returns (Err (Retry e))"
| "mapErr_Retry (Throws e) = Throws e"

text \<open>
  The body of the inner \<^verbatim>\<open>tryLoop\<close>, on the state \<open>(allTriedConns, picked, draws)\<close>:
  \<open>picked\<close> lists the connections that left the \<^verbatim>\<open>while\<close> loop, in order, each being the
  one the rest of the iteration works on.
\<close>

definition conn_looper ::
  "('q, 'j, 'k) env \<Rightarrow> world \<Rightarrow> 'q \<Rightarrow> ref list \<times> ref list \<times> (err + ref) list
    \<Rightarrow> (('j fetched, looped) result completion \<times> ref list \<times> ref list \<times> (err + ref) list) option" where
  "conn_looper E W init s =
     (case s of (allTriedConns, picked, draws) \<Rightarrow>
        (case select allTriedConns draws of
           None \<Rightarrow> None
         | Some (Inl l, tried, draws') \<Rightarrow> Some (Returns (Err l), tried, picked, draws')
         | Some (Inr c, tried, draws') \<Rightarrow>
             let conn = conn_entry W c;
                 request = prepare (counter conn) init
             in Some
               (case connection conn of
                  URL url circuit \<Rightarrow>
                    Returns (rewrap_or_retry (tryFetchWithCircuit E url circuit request))
                | WebSocket socket circuit \<Rightarrow>
                    Returns (rewrap_or_retry (tryFetchWithSocket E socket request))
                | Neither \<Rightarrow> Throws Panic,
                tried, picked @ [c], draws')))"

text \<open>
  The state of one call: the draws still to come from \<^verbatim>\<open>pools\<close> and from the pools'
  connections, \<^verbatim>\<open>allTriedPools\<close>, and for every pool that left the outer \<^verbatim>\<open>while\<close> loop,
  in order, the connections picked within it.
\<close>

record loop_state =
  pool_draws :: "(err + ref) list"
  conn_draws :: "(err + ref) list"
  allTriedPools :: "ref list"
  picks :: "(ref \<times> ref list) list"

text \<open>
  The body of the outer \<^verbatim>\<open>tryLoop\<close>: pick a pool, then run the inner loop on it with a new
  empty \<^verbatim>\<open>allTriedConns\<close> and \<^verbatim>\<open>max: conns.capacity\<close>.
\<close>

definition pool_looper ::
  "('q, 'j, 'k) env \<Rightarrow> world \<Rightarrow> 'q \<Rightarrow> loop_state
    \<Rightarrow> (('j fetched, looped) result completion \<times> loop_state) option" where
  "pool_looper E W init s =
     (case select (allTriedPools s) (pool_draws s) of
        None \<Rightarrow> None
      | Some (Inl l, tried, draws') \<Rightarrow>
          Some (Returns (Err l), s\<lparr>allTriedPools := tried, pool_draws := draws'\<rparr>)
      | Some (Inr pool, tried, draws') \<Rightarrow>
          (case tryLoop (conn_looper E W init) (pool_capacity W pool) [] ([], [], conn_draws s) of
             None \<Rightarrow> None
           | Some (r, allTriedConns, picked, cdraws) \<Rightarrow>
               Some (mapErr_Retry r,
                     s\<lparr>allTriedPools := tried, pool_draws := draws', conn_draws := cdraws,
                       picks := picks s @ [(pool, picked)]\<rparr>)))"

text \<open>
  The whole call, given the draws to come; \<open>pools\<close> is \<^verbatim>\<open>brume[ethereum.chain.chainId]\<close>,
  absent or a reference to the pool of pools. \<^verbatim>\<open>allTriedPools\<close> starts as a new empty set.
\<close>

definition tryEthereumFetch_loop ::
  "('q, 'j, 'k) env \<Rightarrow> world \<Rightarrow> ref option \<Rightarrow> 'q \<Rightarrow> (err + ref) list \<Rightarrow> (err + ref) list
    \<Rightarrow> (('j fetched, err) result completion \<times> loop_state) option" where
  "tryEthereumFetch_loop E W pools init pdraws cdraws =
     (let s = \<lparr>pool_draws = pdraws, conn_draws = cdraws, allTriedPools = [], picks = []\<rparr> in
      case pools of
        None \<Rightarrow> Some (Returns (Err NoneError), s)
      | Some ps \<Rightarrow> tryLoop (pool_looper E W init) (pool_capacity W ps) [] s)"

text \<open>All the transport calls due to one slot of the directory: those of every slot of its pool.\<close>

definition circuit_calls :: "'q \<Rightarrow> err + entry pool \<Rightarrow> 'q event list" where
  "circuit_calls init slot =
     (case slot of Inl e \<Rightarrow> [] | Inr pool \<Rightarrow> concat (map (transport_call init) pool))"

section \<open>Relations between the states of the retry fetch\<close>

text \<open>
  Between two states of an inner loop: the set of tried connections and the list of picked
  ones have grown by the same new connections, none repeated, none tried before.
\<close>

definition conns_grow :: "ref list \<times> ref list \<times> (err + ref) list \<Rightarrow> ref list \<times> ref list \<times> (err + ref) list \<Rightarrow> bool" where
  "conns_grow s s' \<longleftrightarrow>
     (\<exists>new. fst s' = fst s @ new \<and> fst (snd s') = fst (snd s) @ new
        \<and> distinct new \<and> set new \<inter> set (fst s) = {})"

text \<open>
  Between two states of the outer loop: the set of tried pools has grown by the pools of
  the new picks, none repeated, none tried before, each with its connections picked once.
\<close>

definition pools_grow :: "loop_state \<Rightarrow> loop_state \<Rightarrow> bool" where
  "pools_grow s s' \<longleftrightarrow>
     (\<exists>new. allTriedPools s' = allTriedPools s @ map fst new \<and> picks s' = picks s @ new
        \<and> distinct (map fst new) \<and> set (map fst new) \<inter> set (allTriedPools s) = {}
        \<and> (\<forall>b \<in> set new. distinct (snd b)))"

section \<open>Example inputs\<close>

text \<open>
  An environment whose circuit transport answers with the URL as the result, except for the
  URL \<open>''down''\<close>, which times out; a directory for chain 1 with two circuits of two
  connections: both connections of the first answer \<open>''P1''\<close>, those of the second
  \<open>''P1''\<close> and \<open>''P2''\<close>.
\<close>

definition example_env :: "(string, string, string) env" where
  "example_env =
     \<lparr>tryFetchWithCircuit = (\<lambda>url circuit request.
          if url = ''down'' then Inl (TransportError ''timeout'') else Inr (RpcOk url)),
      tryFetchWithSocket = (\<lambda>socket request. Inr (RpcErr socket)),
      stringify = (\<lambda>j. j)\<rparr>"

definition circuit_A :: "entry pool" where
  "circuit_A = [Inr \<lparr>counter = 0, connection = URL ''P1'' ''a1''\<rparr>,
                Inr \<lparr>counter = 0, connection = URL ''P1'' ''a2''\<rparr>]"

definition circuit_B :: "entry pool" where
  "circuit_B = [Inr \<lparr>counter = 0, connection = URL ''P1'' ''b1''\<rparr>,
                Inr \<lparr>counter = 0, connection = URL ''P2'' ''b2''\<rparr>]"

definition example_context :: ethereum_context where
  "example_context = \<lparr>chainId = 1, brume = [1 \<mapsto> [Inr circuit_A, Inr circuit_B]]\<rparr>"

text \<open>
  A directory for chain 1 with one circuit in which nothing answers: a connection whose
  transport times out, a connection of neither kind, and a slot without an entry.
\<close>

definition circuit_down :: "entry pool" where
  "circuit_down = [Inr \<lparr>counter = 0, connection = URL ''down'' ''c1''\<rparr>,
                   Inr \<lparr>counter = 0, connection = Neither\<rparr>,
                   Inl (SlotError ''closed'')]"

definition example_context_down :: ethereum_context where
  "example_context_down = \<lparr>chainId = 1, brume = [1 \<mapsto> [Inr circuit_down]]\<rparr>"

text \<open>
  For the retry fetch: every pool has capacity 2; connection 5 answers, every other one
  times out.
\<close>

definition example_world :: world where
  "example_world =
     \<lparr>pool_capacity = (\<lambda>r. 2),
      conn_entry = (\<lambda>r. \<lparr>counter = 0,
                          connection = (if r = 5 then URL ''P1'' ''x'' else URL ''down'' ''y'')\<rparr>)\<rparr>"

section \<open>The tally, characterised\<close>

lemma tally_snoc: "tally raw (rs @ [r]) = tally_step raw (tally raw rs) r"
  by (simp add: tally_def)

lemma tally_Nil: "tally raw [] = ([], [])"
  by (simp add: tally_def)

lemma fulfilleds_append: "fulfilleds (xs @ ys) = fulfilleds xs @ fulfilleds ys"
  by (induction xs rule: fulfilleds.induct) auto

lemma rejections_append: "rejections (xs @ ys) = rejections xs @ rejections ys"
  by (induction xs rule: rejections.induct) auto

lemma tally_keys_same: "map fst (fst (tally raw rs)) = map fst (snd (tally raw rs))"
proof (induction rs rule: rev_induct)
  case Nil
  then show ?case by (simp add: tally_Nil)
next
  case (snoc r rs)
  obtain f c where fc: "tally raw rs = (f, c)" by (cases "tally raw rs")
  with snoc show ?case
    by (cases r) (auto simp: tally_snoc update_keys Let_def)
qed

lemma tally_counters_distinct: "distinct (map fst (snd (tally raw rs)))"
proof (induction rs rule: rev_induct)
  case Nil
  then show ?case by (simp add: tally_Nil)
next
  case (snoc r rs)
  obtain f c where fc: "tally raw rs = (f, c)" by (cases "tally raw rs")
  with snoc show ?case
    by (cases r) (auto simp: tally_snoc distinct_update Let_def)
qed

lemma tally_counters_map_of:
  "map_of (snd (tally raw rs)) k =
     (if k \<in># payloads raw rs then Some (count (payloads raw rs) k) else None)"
proof (induction rs arbitrary: k rule: rev_induct)
  case Nil
  then show ?case by (simp add: tally_Nil payloads_def)
next
  case (snoc r rs)
  obtain f c where fc: "tally raw rs = (f, c)" by (cases "tally raw rs")
  show ?case
  proof (cases r)
    case (Inl e)
    with snoc fc show ?thesis
      by (simp add: tally_snoc payloads_def fulfilleds_append)
  next
    case (Inr v)
    have ih: "map_of c k' = (if k' \<in># payloads raw rs then Some (count (payloads raw rs) k') else None)" for k'
      using snoc[of k'] fc by simp
    have p: "payloads raw (rs @ [r]) = add_mset (raw v) (payloads raw rs)"
      using Inr by (simp add: payloads_def fulfilleds_append)
    show ?thesis
      unfolding p using Inr fc ih
      by (auto simp: tally_snoc update_conv' Let_def not_in_iff split: option.splits)
  qed
qed

lemma tally_fetcheds_map_of:
  "map_of (fst (tally raw rs)) k = Some v \<Longrightarrow> v \<in> set (fulfilleds rs) \<and> raw v = k"
proof (induction rs arbitrary: k v rule: rev_induct)
  case Nil
  then show ?case by (simp add: tally_Nil)
next
  case (snoc r rs)
  obtain f c where fc: "tally raw rs = (f, c)" by (cases "tally raw rs")
  show ?case
  proof (cases r)
    case (Inl e)
    with snoc fc show ?thesis
      by (simp add: tally_snoc fulfilleds_append)
  next
    case (Inr w)
    with snoc.prems fc have "((map_of f)(raw w \<mapsto> w)) k = Some v"
      by (simp add: tally_snoc update_conv' Let_def)
    then show ?thesis
      using snoc.IH[of k v] fc Inr
      by (auto simp: fulfilleds_append split: if_splits)
  qed
qed

lemma tally_fetcheds_last:
  "map_of (fst (tally raw rs)) k =
     (case filter (\<lambda>v. raw v = k) (fulfilleds rs) of [] \<Rightarrow> None | v # vs \<Rightarrow> Some (last (v # vs)))"
proof (induction rs rule: rev_induct)
  case Nil
  then show ?case by (simp add: tally_Nil)
next
  case (snoc r rs)
  obtain f c where fc: "tally raw rs = (f, c)" by (cases "tally raw rs")
  show ?case
  proof (cases r)
    case (Inl e)
    with snoc fc show ?thesis
      by (simp add: tally_snoc fulfilleds_append)
  next
    case (Inr w)
    with snoc fc show ?thesis
      by (auto simp: tally_snoc update_conv' Let_def fulfilleds_append split: list.splits)
  qed
qed

lemma tally_counters_keys: "fst ` set (snd (tally raw rs)) = set_mset (payloads raw rs)"
proof -
  have "fst ` set (snd (tally raw rs)) = dom (map_of (snd (tally raw rs)))"
    by (simp add: dom_map_of_conv_image_fst)
  also have "\<dots> = set_mset (payloads raw rs)"
    by (auto simp: tally_counters_map_of dom_def)
  finally show ?thesis .
qed

lemma tally_counters_entry:
  "(k, n) \<in> set (snd (tally raw rs)) \<longleftrightarrow> k \<in># payloads raw rs \<and> n = count (payloads raw rs) k"
proof -
  have "(k, n) \<in> set (snd (tally raw rs)) \<longleftrightarrow> map_of (snd (tally raw rs)) k = Some n"
    using tally_counters_distinct[of raw rs] by simp
  then show ?thesis by (auto simp: tally_counters_map_of)
qed

lemma tally_counters_length: "length (snd (tally raw rs)) = card (set_mset (payloads raw rs))"
proof -
  have "length (snd (tally raw rs)) = length (map fst (snd (tally raw rs)))" by simp
  also have "\<dots> = card (set (map fst (snd (tally raw rs))))"
    using tally_counters_distinct[of raw rs] by (simp only: distinct_card)
  also have "\<dots> = card (set_mset (payloads raw rs))"
    using tally_counters_keys[of raw rs] by simp
  finally show ?thesis .
qed

text \<open>The sorted entries: same entries, same keys, counts in descending order.\<close>

lemma sorteds_set: "set (sorteds_of c) = set c"
  by (simp add: sorteds_of_def)

lemma sorteds_length: "length (sorteds_of c) = length c"
  by (simp add: sorteds_of_def)

lemma sorteds_distinct: "distinct (map fst c) \<Longrightarrow> distinct (map fst (sorteds_of c))"
proof -
  assume d: "distinct (map fst c)"
  have "mset (map fst (sorteds_of c)) = mset (map fst c)"
    by (simp add: sorteds_of_def)
  then show ?thesis using d by (metis distinct_count_atmost_1 set_mset_mset)
qed

lemma sorteds_two:
  assumes "2 \<le> length c"
  shows "\<exists>a b rest. sorteds_of c = a # b # rest"
proof -
  from assms have "2 \<le> length (sorteds_of c)" by (simp add: sorteds_length)
  then show ?thesis
    by (cases "sorteds_of c"; cases "tl (sorteds_of c)") auto
qed

lemma sorteds_facts:
  assumes d: "distinct (map fst c)" and s: "sorteds_of c = a # b # rest"
  shows "\<forall>x \<in> set (b # rest). snd x \<le> snd a"
    and "\<forall>x \<in> set rest. snd x \<le> snd b"
    and "fst a \<noteq> fst b"
    and "set c = set (a # b # rest)"
proof -
  have "sorted (map (\<lambda>e. - int (snd e)) (sorteds_of c))"
    by (simp add: sorteds_of_def)
  with s show "\<forall>x \<in> set (b # rest). snd x \<le> snd a" and "\<forall>x \<in> set rest. snd x \<le> snd b"
    by auto
  from sorteds_distinct[OF d] s show "fst a \<noteq> fst b" by auto
  show "set c = set (a # b # rest)" using sorteds_set[of c] s by simp
qed

section \<open>The vote, case by case\<close>

lemma consensus_few:
  "card (set_mset (payloads raw rs)) < 2 \<Longrightarrow> consensus raw rs = promise_any rs"
proof -
  assume a: "card (set_mset (payloads raw rs)) < 2"
  obtain f c where fc: "tally raw rs = (f, c)" by (cases "tally raw rs")
  with a tally_counters_length[of raw rs] have "length c < 2" by simp
  with fc show ?thesis by (simp add: consensus_def)
qed

lemma consensus_sorted:
  assumes "2 \<le> card (set_mset (payloads raw rs))"
    and "sorteds_of (snd (tally raw rs)) = a # b # rest"
  shows "consensus raw rs =
          (if snd a = snd b then Rejected CouldNotChooseTruth
           else (case map_of (fst (tally raw rs)) (fst a) of
                   None \<Rightarrow> Rejected Undefined | Some v \<Rightarrow> Fulfilled v))"
proof -
  obtain f c where fc: "tally raw rs = (f, c)" by (cases "tally raw rs")
  with assms(1) have "\<not> length c < 2" using tally_counters_length[of raw rs] by simp
  with fc assms(2) show ?thesis by (simp add: consensus_def)
qed

lemma consensus_many:
  assumes "2 \<le> card (set_mset (payloads raw rs))"
  shows "\<exists>a b rest. sorteds_of (snd (tally raw rs)) = a # b # rest"
  using assms by (intro sorteds_two) (simp add: tally_counters_length)

lemmas tally_sorteds = sorteds_facts[OF tally_counters_distinct]

lemma promise_any_empty:
  "fulfilleds rs = [] \<Longrightarrow> promise_any rs = Rejected (AggregateError (rejections rs))"
  by (simp add: promise_any_def)

lemma promise_any_first:
  "fulfilleds rs \<noteq> [] \<Longrightarrow> promise_any rs = Fulfilled (hd (fulfilleds rs))"
  by (cases "fulfilleds rs") (simp_all add: promise_any_def)

lemma payloads_empty_iff: "payloads raw rs = {#} \<longleftrightarrow> fulfilleds rs = []"
  by (simp add: payloads_def)

lemma key_has_value:
  assumes "k \<in># payloads raw rs"
  shows "\<exists>v. map_of (fst (tally raw rs)) k = Some v \<and> raw v = k \<and> v \<in> set (fulfilleds rs)
             \<and> v = last (filter (\<lambda>v. raw v = k) (fulfilleds rs))"
proof -
  from assms obtain w where "w \<in> set (fulfilleds rs)" "raw w = k"
    by (auto simp: payloads_def)
  then have ne: "filter (\<lambda>v. raw v = k) (fulfilleds rs) \<noteq> []"
    by (auto simp: filter_empty_conv)
  then obtain v where v: "map_of (fst (tally raw rs)) k = Some v"
     "v = last (filter (\<lambda>v. raw v = k) (fulfilleds rs))"
    by (auto simp: tally_fetcheds_last split: list.splits)
  with tally_fetcheds_map_of[OF v(1)] show ?thesis by blast
qed

text \<open>A strict plurality wins; a shared highest count is a tie.\<close>

lemma consensus_plurality:
  assumes two: "2 \<le> card (set_mset (payloads raw rs))"
    and k: "k \<in># payloads raw rs"
    and top: "\<forall>k'. k' \<noteq> k \<longrightarrow> count (payloads raw rs) k' < count (payloads raw rs) k"
  shows "consensus raw rs = Fulfilled (last (filter (\<lambda>v. raw v = k) (fulfilleds rs)))"
proof -
  let ?M = "payloads raw rs"
  from consensus_many[OF two] obtain a b rest where
    s: "sorteds_of (snd (tally raw rs)) = a # b # rest" by blast
  note 1 = tally_sorteds(1)[OF s] and 3 = tally_sorteds(3)[OF s] and 4 = tally_sorteds(4)[OF s]
  note c = consensus_sorted[OF two s]
  have ent: "(k', n) \<in> set (a # b # rest) \<longleftrightarrow> k' \<in># ?M \<and> n = count ?M k'" for k' n
    using tally_counters_entry[of k' n raw rs] 4 by simp
  have a: "snd a = count ?M (fst a)" and b: "snd b = count ?M (fst b)"
    using ent[of "fst a" "snd a"] ent[of "fst b" "snd b"] by auto
  have kin: "(k, count ?M k) \<in> set (a # b # rest)" using ent k by blast
  have "fst a = k"
  proof (rule ccontr)
    assume n: "fst a \<noteq> k"
    then have "(k, count ?M k) \<in> set (b # rest)" using kin by auto
    with 1 have "snd (k, count ?M k) \<le> snd a" by blast
    then have "count ?M k \<le> snd a" by simp
    moreover have "snd a < count ?M k" using top n a by simp
    ultimately show False by simp
  qed
  moreover have "snd b < snd a"
  proof -
    have "fst b \<noteq> k" using 3 \<open>fst a = k\<close> by simp
    with top have "count ?M (fst b) < count ?M k" by blast
    with a b \<open>fst a = k\<close> show ?thesis by simp
  qed
  ultimately show ?thesis using c key_has_value[OF k] by auto
qed

lemma consensus_tie:
  assumes k1: "k1 \<in># payloads raw rs" and k2: "k2 \<in># payloads raw rs" and ne: "k1 \<noteq> k2"
    and eq: "count (payloads raw rs) k1 = count (payloads raw rs) k2"
    and top: "\<forall>k. count (payloads raw rs) k \<le> count (payloads raw rs) k1"
  shows "consensus raw rs = Rejected CouldNotChooseTruth"
proof -
  let ?M = "payloads raw rs"
  have "{k1, k2} \<subseteq> set_mset ?M" using k1 k2 by simp
  then have "card {k1, k2} \<le> card (set_mset ?M)" by (intro card_mono) auto
  then have two: "2 \<le> card (set_mset ?M)" using ne by simp
  from consensus_many[OF two] obtain a b rest where
    s: "sorteds_of (snd (tally raw rs)) = a # b # rest" by blast
  note 1 = tally_sorteds(1)[OF s] and 2 = tally_sorteds(2)[OF s] and 4 = tally_sorteds(4)[OF s]
  note c = consensus_sorted[OF two s]
  have ent: "(k', n) \<in> set (a # b # rest) \<longleftrightarrow> k' \<in># ?M \<and> n = count ?M k'" for k' n
    using tally_counters_entry[of k' n raw rs] 4 by simp
  have a: "snd a = count ?M (fst a)" and b: "snd b = count ?M (fst b)"
    using ent[of "fst a" "snd a"] ent[of "fst b" "snd b"] by auto
  have e1: "(k1, count ?M k1) \<in> set (a # b # rest)" and e2: "(k2, count ?M k1) \<in> set (a # b # rest)"
    using ent k1 k2 eq by auto
  have ale: "snd a \<le> count ?M k1" and ble: "snd b \<le> count ?M k1" using a b top by auto
  have age: "count ?M k1 \<le> snd a"
  proof (cases "a = (k1, count ?M k1)")
    case True
    then show ?thesis by simp
  next
    case False
    with e1 have "(k1, count ?M k1) \<in> set (b # rest)" by simp
    with 1 have "snd (k1, count ?M k1) \<le> snd a" by blast
    then show ?thesis by simp
  qed
  have "\<exists>x \<in> set (b # rest). snd x = count ?M k1"
  proof (cases "a = (k1, count ?M k1)")
    case True
    with ne have "a \<noteq> (k2, count ?M k1)" by simp
    with e2 have "(k2, count ?M k1) \<in> set (b # rest)" by simp
    then show ?thesis by (rule bexI[rotated]) simp
  next
    case False
    with e1 have "(k1, count ?M k1) \<in> set (b # rest)" by simp
    then show ?thesis by (rule bexI[rotated]) simp
  qed
  then obtain x where x: "x \<in> set (b # rest)" "snd x = count ?M k1" by blast
  have bge: "count ?M k1 \<le> snd b"
  proof (cases "x = b")
    case True
    with x show ?thesis by simp
  next
    case False
    with x have "x \<in> set rest" by simp
    with 2 x show ?thesis by auto
  qed
  from ale age ble bge have "snd a = snd b" by simp
  then show ?thesis using c by simp
qed

lemma consensus_unique:
  assumes "set_mset (payloads raw rs) = {k}"
  shows "consensus raw rs = Fulfilled (hd (fulfilleds rs)) \<and> raw (hd (fulfilleds rs)) = k"
proof -
  have "card (set_mset (payloads raw rs)) < 2" using assms by simp
  then have c: "consensus raw rs = promise_any rs" by (rule consensus_few)
  have ne: "fulfilleds rs \<noteq> []" using assms payloads_empty_iff[of raw rs] by auto
  then have "hd (fulfilleds rs) \<in> set (fulfilleds rs)" by simp
  then have "raw (hd (fulfilleds rs)) \<in># payloads raw rs" by (simp add: payloads_def)
  with assms have "raw (hd (fulfilleds rs)) = k" by simp
  with c promise_any_first[OF ne] show ?thesis by simp
qed

lemma consensus_none:
  assumes "payloads raw rs = {#}"
  shows "consensus raw rs = Rejected (AggregateError (rejections rs))"
proof -
  have "card (set_mset (payloads raw rs)) < 2" using assms by simp
  then have c: "consensus raw rs = promise_any rs" by (rule consensus_few)
  with assms show ?thesis by (simp add: payloads_empty_iff promise_any_empty)
qed

lemma consensus_no_plurality:
  assumes two: "2 \<le> card (set_mset (payloads raw rs))"
    and none: "\<forall>k. k \<in># payloads raw rs \<longrightarrow> (\<exists>k'. k' \<noteq> k \<and> count (payloads raw rs) k \<le> count (payloads raw rs) k')"
  shows "consensus raw rs = Rejected CouldNotChooseTruth"
proof -
  let ?M = "payloads raw rs"
  from consensus_many[OF two] obtain a b rest where
    s: "sorteds_of (snd (tally raw rs)) = a # b # rest" by blast
  note 1 = tally_sorteds(1)[OF s] and 2 = tally_sorteds(2)[OF s] and 4 = tally_sorteds(4)[OF s]
  note c = consensus_sorted[OF two s]
  have ent: "(k', n) \<in> set (a # b # rest) \<longleftrightarrow> k' \<in># ?M \<and> n = count ?M k'" for k' n
    using tally_counters_entry[of k' n raw rs] 4 by simp
  have a: "fst a \<in># ?M" "snd a = count ?M (fst a)"
    using ent[of "fst a" "snd a"] by auto
  from none a(1) obtain k' where k': "k' \<noteq> fst a" "count ?M (fst a) \<le> count ?M k'" by blast
  have "0 < count ?M (fst a)" using a(1) by simp
  with k'(2) have "k' \<in># ?M" by (simp add: count_greater_zero_iff[symmetric] del: count_greater_zero_iff)
  then have "(k', count ?M k') \<in> set (a # b # rest)" using ent by blast
  moreover have "(k', count ?M k') \<noteq> a" using k'(1) by auto
  ultimately have in_tail: "(k', count ?M k') \<in> set (b # rest)" by simp
  have "count ?M k' \<le> snd b"
  proof (cases "(k', count ?M k') = b")
    case True
    then show ?thesis by (metis order_refl snd_conv)
  next
    case False
    with in_tail have "(k', count ?M k') \<in> set rest" by simp
    with 2 have "snd (k', count ?M k') \<le> snd b" by blast
    then show ?thesis by simp
  qed
  moreover have "snd b \<le> snd a" using 1 by simp
  ultimately have "snd a = snd b" using k'(2) a(2) by simp
  then show ?thesis using c by simp
qed


lemma fulfilleds_conv: "fulfilleds rs = map projr (filter (\<lambda>r. \<not> isl r) rs)"
  by (induction rs rule: fulfilleds.induct) auto

lemma payloads_mset: "mset rs = mset rs' \<Longrightarrow> payloads raw rs = payloads raw rs'"
proof -
  assume "mset rs = mset rs'"
  then have "mset (filter (\<lambda>r. \<not> isl r) rs) = mset (filter (\<lambda>r. \<not> isl r) rs')"
    by (simp only: mset_filter)
  then have "mset (map (raw \<circ> projr) (filter (\<lambda>r. \<not> isl r) rs)) = mset (map (raw \<circ> projr) (filter (\<lambda>r. \<not> isl r) rs'))"
    by (simp only: mset_map)
  then show ?thesis by (simp add: payloads_def fulfilleds_conv)
qed

lemma verdict_consensus_cases:
  shows "payloads raw rs = {#} \<Longrightarrow> verdict_of raw (consensus raw rs) = NoResponses"
    and "set_mset (payloads raw rs) = {k} \<Longrightarrow> verdict_of raw (consensus raw rs) = Trusted k"
    and "2 \<le> card (set_mset (payloads raw rs)) \<Longrightarrow> k \<in># payloads raw rs \<Longrightarrow>
         \<forall>k'. k' \<noteq> k \<longrightarrow> count (payloads raw rs) k' < count (payloads raw rs) k \<Longrightarrow>
         verdict_of raw (consensus raw rs) = Trusted k"
    and "2 \<le> card (set_mset (payloads raw rs)) \<Longrightarrow>
         \<forall>k. k \<in># payloads raw rs \<longrightarrow> (\<exists>k'. k' \<noteq> k \<and> count (payloads raw rs) k \<le> count (payloads raw rs) k') \<Longrightarrow>
         verdict_of raw (consensus raw rs) = AmbiguousConsensus"
proof -
  show "payloads raw rs = {#} \<Longrightarrow> verdict_of raw (consensus raw rs) = NoResponses"
    by (simp add: consensus_none)
  show "set_mset (payloads raw rs) = {k} \<Longrightarrow> verdict_of raw (consensus raw rs) = Trusted k"
    using consensus_unique[of raw rs k] by simp
  show "2 \<le> card (set_mset (payloads raw rs)) \<Longrightarrow> k \<in># payloads raw rs \<Longrightarrow>
         \<forall>k'. k' \<noteq> k \<longrightarrow> count (payloads raw rs) k' < count (payloads raw rs) k \<Longrightarrow>
         verdict_of raw (consensus raw rs) = Trusted k"
  proof -
    assume h: "2 \<le> card (set_mset (payloads raw rs))" "k \<in># payloads raw rs"
         "\<forall>k'. k' \<noteq> k \<longrightarrow> count (payloads raw rs) k' < count (payloads raw rs) k"
    from key_has_value[OF h(2)] have "raw (last (filter (\<lambda>v. raw v = k) (fulfilleds rs))) = k" by auto
    with consensus_plurality[OF h] show ?thesis by simp
  qed
  show "2 \<le> card (set_mset (payloads raw rs)) \<Longrightarrow>
         \<forall>k. k \<in># payloads raw rs \<longrightarrow> (\<exists>k'. k' \<noteq> k \<and> count (payloads raw rs) k \<le> count (payloads raw rs) k') \<Longrightarrow>
         verdict_of raw (consensus raw rs) = AmbiguousConsensus"
    by (simp add: consensus_no_plurality)
qed

lemma verdict_determined:
  assumes "payloads raw rs = payloads raw rs'"
  shows "verdict_of raw (consensus raw rs) = verdict_of raw (consensus raw rs')"
proof -
  let ?M = "payloads raw rs"
  consider (none) "?M = {#}" | (one) k where "set_mset ?M = {k}"
    | (many) "2 \<le> card (set_mset ?M)"
  proof -
    have "card (set_mset ?M) = 0 \<or> card (set_mset ?M) = 1 \<or> 2 \<le> card (set_mset ?M)" by arith
    then show thesis
    proof (elim disjE)
      assume "card (set_mset ?M) = 0"
      then have "?M = {#}" by simp
      then show thesis by (rule that(1))
    next
      assume "card (set_mset ?M) = 1"
      then obtain k where "set_mset ?M = {k}" by (rule card_1_singletonE)
      then show thesis by (rule that(2))
    next
      assume "2 \<le> card (set_mset ?M)"
      then show thesis by (rule that(3))
    qed
  qed
  then show ?thesis
  proof cases
    case none
    then show ?thesis using assms verdict_consensus_cases(1)[of raw rs] verdict_consensus_cases(1)[of raw rs'] by simp
  next
    case (one k)
    then show ?thesis using assms verdict_consensus_cases(2)[of raw rs k] verdict_consensus_cases(2)[of raw rs' k] by simp
  next
    case many
    show ?thesis
    proof (cases "\<exists>k. k \<in># ?M \<and> (\<forall>k'. k' \<noteq> k \<longrightarrow> count ?M k' < count ?M k)")
      case True
      then obtain k where k: "k \<in># ?M" "\<forall>k'. k' \<noteq> k \<longrightarrow> count ?M k' < count ?M k" by blast
      from verdict_consensus_cases(3)[OF many k] 
        verdict_consensus_cases(3)[of raw rs' k] many k assms
      show ?thesis by simp
    next
      case False
      then have n: "\<forall>k. k \<in># ?M \<longrightarrow> (\<exists>k'. k' \<noteq> k \<and> count ?M k \<le> count ?M k')"
        by (meson not_le)
      from verdict_consensus_cases(4)[OF many n] 
        verdict_consensus_cases(4)[of raw rs'] many n assms
      show ?thesis by simp
    qed
  qed
qed

lemma tally_step_Rejected: "tally_step raw s (Rejected e) = s"
  by (cases s) simp

lemma tally_ignores_rejected: "tally raw rs = tally raw (map Fulfilled (fulfilleds rs))"
proof (induction rs rule: rev_induct)
  case Nil
  then show ?case by simp
next
  case (snoc r rs)
  show ?case
  proof (cases r)
    case (Inl e)
    with snoc show ?thesis by (simp add: tally_snoc fulfilleds_append tally_step_Rejected)
  next
    case (Inr v)
    have "tally raw (map Fulfilled (fulfilleds (rs @ [r]))) =
          tally_step raw (tally raw (map Fulfilled (fulfilleds rs))) r"
      using Inr tally_snoc[of raw "map Fulfilled (fulfilleds rs)" r]
      by (simp add: fulfilleds_append)
    with snoc show ?thesis by (simp add: tally_snoc)
  qed
qed

lemma tally_counts_sum: "sum_list (map snd (snd (tally raw rs))) = length (fulfilleds rs)"
proof -
  let ?c = "snd (tally raw rs)" and ?M = "payloads raw rs"
  have "snd x = count ?M (fst x)" if "x \<in> set ?c" for x
    using that tally_counters_entry[of "fst x" "snd x" raw rs] by simp
  then have "map snd ?c = map (count ?M) (map fst ?c)" by simp
  then have "sum_list (map snd ?c) = sum_list (map (count ?M) (map fst ?c))" by (rule arg_cong)
  also have "\<dots> = sum (count ?M) (set (map fst ?c))"
    using tally_counters_distinct[of raw rs] by (rule sum_list_distinct_conv_sum_set)
  also have "\<dots> = sum (count ?M) (set_mset ?M)"
    using tally_counters_keys[of raw rs] by simp
  also have "\<dots> = size ?M" by (simp add: size_multiset_overloaded_eq)
  also have "\<dots> = length (fulfilleds rs)" by (simp add: payloads_def)
  finally show ?thesis .
qed

lemma consensus_fulfilled_member:
  "consensus raw rs = Fulfilled v \<Longrightarrow> v \<in> set (fulfilleds rs)"
proof -
  assume c: "consensus raw rs = Fulfilled v"
  obtain f cs where fc: "tally raw rs = (f, cs)" by (cases "tally raw rs")
  show ?thesis
  proof (cases "length cs < 2")
    case True
    with c fc have "promise_any rs = Fulfilled v" by (simp add: consensus_def)
    then show ?thesis by (auto simp: promise_any_def split: list.splits)
  next
    case False
    with c fc obtain k where "map_of f k = Some v"
      by (auto simp: consensus_def Let_def split: if_splits option.splits)
    with tally_fetcheds_map_of[of raw rs k v] fc show ?thesis by simp
  qed
qed

section \<open>The fan-out\<close>

lemma map_tryGet: "map (\<lambda>i. g (tryGet pool i)) [0..<capacity pool] = map g pool"
proof (rule nth_equalityI)
  show "length (map (\<lambda>i. g (tryGet pool i)) [0..<capacity pool]) = length (map g pool)"
    by (simp add: capacity_def)
next
  fix i
  assume "i < length (map (\<lambda>i. g (tryGet pool i)) [0..<capacity pool])"
  then have "i < length pool" by (simp add: capacity_def)
  then show "map (\<lambda>i. g (tryGet pool i)) [0..<capacity pool] ! i = map g pool ! i"
    by (simp add: capacity_def tryGet_def)
qed

lemma runWithConn_events:
  "snd (runWithConnOrThrow E init pool index) = transport_call init (tryGet pool index)"
  by (simp add: runWithConnOrThrow_def transport_call_def Let_def
      split: sum.splits rpc_connection.splits)

lemma runWithPool_events:
  "snd (runWithPoolOrThrow E init pools index) =
     (case tryGet pools index of
        Inl e \<Rightarrow> []
      | Inr pool \<Rightarrow> concat (map (transport_call init) pool))"
proof (cases "tryGet pools index")
  case (Inl e)
  then show ?thesis by (simp add: runWithPoolOrThrow_def)
next
  case (Inr pool)
  have "map snd (map (runWithConnOrThrow E init pool) [0..<capacity pool]) =
        map (\<lambda>i. transport_call init (tryGet pool i)) [0..<capacity pool]"
    by (simp add: runWithConn_events)
  also have "\<dots> = map (transport_call init) pool" by (rule map_tryGet)
  finally show ?thesis using Inr by (simp add: runWithPoolOrThrow_def Let_def)
qed

lemma fetch_body_events:
  assumes "brume ethereum (chainId ethereum) = Some pools"
  shows "snd (fetch_body E ethereum init) = concat (map (circuit_calls init) pools)"
proof -
  have "map snd (map (runWithPoolOrThrow E init pools) [0..<capacity pools]) =
        map (\<lambda>i. circuit_calls init (tryGet pools i)) [0..<capacity pools]"
    by (simp add: runWithPool_events circuit_calls_def)
  also have "\<dots> = map (circuit_calls init) pools" by (rule map_tryGet)
  finally show ?thesis using assms by (simp add: fetch_body_def Let_def)
qed

lemma tryEthereumFetch_fst: "fst (tryEthereumFetch E ethereum init) = runAndDoubleWrap (fst (fetch_body E ethereum init))"
  by (simp add: tryEthereumFetch_def split: prod.splits)

lemma tryEthereumFetch_snd: "snd (tryEthereumFetch E ethereum init) = snd (fetch_body E ethereum init)"
  by (simp add: tryEthereumFetch_def split: prod.splits)

lemma consensus_unanimous2: "consensus raw [Fulfilled p, Fulfilled p] = Fulfilled p"
  by (simp add: consensus_def tally_def promise_any_def)

lemma consensus_split2: "raw p \<noteq> raw q \<Longrightarrow> consensus raw [Fulfilled p, Fulfilled q] = Rejected CouldNotChooseTruth"
  by (simp add: consensus_def tally_def sorteds_of_def)

lemma consensus_one_survivor: "consensus raw [Fulfilled p, Rejected e] = Fulfilled p"
  by (simp add: consensus_def tally_def promise_any_def)

lemma runWithPool_two:
  assumes "tryGet pools i = Inr pool" "length pool = 2"
  shows "fst (runWithPoolOrThrow E init pools i) =
     consensus (raw_of E) [fst (runWithConnOrThrow E init pool 0), fst (runWithConnOrThrow E init pool 1)]"
proof -
  have "[0..<capacity pool] = [0, 1]" using assms(2) by (simp add: capacity_def upt_rec)
  then show ?thesis using assms(1) by (simp add: runWithPoolOrThrow_def Let_def)
qed


section \<open>The exclusion sets\<close>

lemma select_sound:
  "select tried draws = Some (res, tried', draws') \<Longrightarrow>
     (case res of Inl l \<Rightarrow> tried' = tried | Inr x \<Rightarrow> x \<notin> set tried \<and> tried' = tried @ [x])"
  by (induction tried draws rule: select.induct) (auto simp: set_add_def split: if_splits)

lemma tryLoop_rel:
  assumes step: "\<And>s r s'. looper s = Some (r, s') \<Longrightarrow> R s s'"
    and refl: "\<And>s. R s s"
    and trans: "\<And>a b c. R a b \<Longrightarrow> R b c \<Longrightarrow> R a c"
  shows "tryLoop looper n errors s = Some (r, s') \<Longrightarrow> R s s'"
proof (induction n arbitrary: errors s)
  case 0
  then show ?case using refl by simp
next
  case (Suc n)
  from Suc.prems obtain r1 s1 where l: "looper s = Some (r1, s1)"
    by (cases "looper s") auto
  note R1 = step[OF l]
  show ?case
  proof (cases r1)
    case (Throws e)
    with Suc.prems l R1 show ?thesis by simp
  next
    case (Returns res)
    show ?thesis
    proof (cases res)
      case (Ok v)
      with Returns Suc.prems l R1 show ?thesis by simp
    next
      case (Err lp)
      show ?thesis
      proof (cases lp)
        case (Cancel e)
        with Err Returns Suc.prems l R1 show ?thesis by simp
      next
        case (Retry e)
        with Err Returns Suc.prems l have "tryLoop looper n (errors @ [e]) s1 = Some (r, s')"
          by simp
        from Suc.IH[OF this] R1 show ?thesis by (rule trans[rotated])
      qed
    qed
  qed
qed

lemma conns_grow_refl: "conns_grow s s"
  by (simp add: conns_grow_def)

lemma conns_grow_trans: "conns_grow a b \<Longrightarrow> conns_grow b c \<Longrightarrow> conns_grow a c"
  unfolding conns_grow_def
proof -
  assume "\<exists>new. fst b = fst a @ new \<and> fst (snd b) = fst (snd a) @ new \<and> distinct new \<and> set new \<inter> set (fst a) = {}"
    and "\<exists>new. fst c = fst b @ new \<and> fst (snd c) = fst (snd b) @ new \<and> distinct new \<and> set new \<inter> set (fst b) = {}"
  then obtain n1 n2 where
    1: "fst b = fst a @ n1" "fst (snd b) = fst (snd a) @ n1" "distinct n1" "set n1 \<inter> set (fst a) = {}"
    and 2: "fst c = fst b @ n2" "fst (snd c) = fst (snd b) @ n2" "distinct n2" "set n2 \<inter> set (fst b) = {}"
    by blast
  have "fst c = fst a @ (n1 @ n2)" "fst (snd c) = fst (snd a) @ (n1 @ n2)"
    using 1 2 by simp_all
  moreover have "distinct (n1 @ n2)" using 1 2 by auto
  moreover have "set (n1 @ n2) \<inter> set (fst a) = {}" using 1 2 by auto
  ultimately show "\<exists>new. fst c = fst a @ new \<and> fst (snd c) = fst (snd a) @ new \<and> distinct new \<and> set new \<inter> set (fst a) = {}"
    by blast
qed

lemma conn_looper_grows:
  assumes "conn_looper E W init s = Some (r, s')"
  shows "conns_grow s s'"
proof -
  obtain t p d where s: "s = (t, p, d)" by (cases s)
  from assms s obtain res t' d' where sel: "select t d = Some (res, t', d')"
    by (cases "select t d") (auto simp: conn_looper_def)
  show ?thesis
  proof (cases res)
    case (Inl l)
    with sel assms s have "s' = (t', p, d')" by (simp add: conn_looper_def)
    moreover from select_sound[OF sel] Inl have "t' = t" by simp
    ultimately show ?thesis using s by (simp add: conns_grow_def)
  next
    case (Inr c)
    with sel assms s have "s' = (t', p @ [c], d')" by (simp add: conn_looper_def Let_def)
    moreover from select_sound[OF sel] Inr have "c \<notin> set t" "t' = t @ [c]" by simp_all
    ultimately show ?thesis using s by (simp add: conns_grow_def)
  qed
qed

lemma inner_loop_grows:
  "tryLoop (conn_looper E W init) n errors s = Some (r, s') \<Longrightarrow> conns_grow s s'"
  by (rule tryLoop_rel[where R = conns_grow and looper = "conn_looper E W init"])
    (auto intro: conn_looper_grows conns_grow_refl conns_grow_trans)

lemma pools_grow_refl: "pools_grow s s"
  unfolding pools_grow_def by (rule exI[of _ "[]"]) simp

lemma pools_grow_trans:
  assumes "pools_grow a b" "pools_grow b c"
  shows "pools_grow a c"
proof -
  from assms obtain n1 n2 where
    1: "allTriedPools b = allTriedPools a @ map fst n1" "picks b = picks a @ n1"
       "distinct (map fst n1)" "set (map fst n1) \<inter> set (allTriedPools a) = {}"
       "\<forall>x \<in> set n1. distinct (snd x)"
    and 2: "allTriedPools c = allTriedPools b @ map fst n2" "picks c = picks b @ n2"
       "distinct (map fst n2)" "set (map fst n2) \<inter> set (allTriedPools b) = {}"
       "\<forall>x \<in> set n2. distinct (snd x)"
    unfolding pools_grow_def by blast
  have "allTriedPools c = allTriedPools a @ map fst (n1 @ n2)" "picks c = picks a @ (n1 @ n2)"
    using 1 2 by simp_all
  moreover have "distinct (map fst (n1 @ n2))" using 1 2 by auto
  moreover have "set (map fst (n1 @ n2)) \<inter> set (allTriedPools a) = {}" using 1 2 by auto
  moreover have "\<forall>x \<in> set (n1 @ n2). distinct (snd x)" using 1 2 by auto
  ultimately show ?thesis unfolding pools_grow_def by blast
qed

lemma pool_looper_grows:
  assumes "pool_looper E W init s = Some (r, s')"
  shows "pools_grow s s'"
proof -
  from assms obtain res t' d' where sel: "select (allTriedPools s) (pool_draws s) = Some (res, t', d')"
    by (cases "select (allTriedPools s) (pool_draws s)") (auto simp: pool_looper_def)
  show ?thesis
  proof (cases res)
    case (Inl l)
    with sel assms have "s' = s\<lparr>allTriedPools := t', pool_draws := d'\<rparr>"
      by (simp add: pool_looper_def)
    moreover from select_sound[OF sel] Inl have "t' = allTriedPools s" by simp
    ultimately show ?thesis unfolding pools_grow_def by (intro exI[of _ "[]"]) simp
  next
    case (Inr pool)
    from select_sound[OF sel] Inr have f: "pool \<notin> set (allTriedPools s)" "t' = allTriedPools s @ [pool]"
      by simp_all
    let ?inner = "tryLoop (conn_looper E W init) (pool_capacity W pool) [] ([], [], conn_draws s)"
    from assms sel Inr obtain r1 tc picked cd where inner: "?inner = Some (r1, tc, picked, cd)"
      by (cases ?inner) (auto simp: pool_looper_def)
    with assms sel Inr have s': "s' = s\<lparr>allTriedPools := t', pool_draws := d', conn_draws := cd,
                       picks := picks s @ [(pool, picked)]\<rparr>"
      by (simp add: pool_looper_def)
    from inner_loop_grows[OF inner] have "distinct picked"
      by (auto simp: conns_grow_def)
    with s' f show ?thesis unfolding pools_grow_def
      by (intro exI[of _ "[(pool, picked)]"]) simp
  qed
qed

lemma outer_loop_grows:
  "tryLoop (pool_looper E W init) n errors s = Some (r, s') \<Longrightarrow> pools_grow s s'"
  by (rule tryLoop_rel[where R = pools_grow and looper = "pool_looper E W init"])
    (auto intro: pool_looper_grows pools_grow_refl pools_grow_trans)

lemma distinct_concat_owner:
  assumes "distinct (map fst bs)" "\<forall>b \<in> set bs. distinct (snd b)"
    and "\<forall>b \<in> set bs. \<forall>c \<in> set (snd b). owner c = fst b"
  shows "distinct (concat (map snd bs))"
  using assms
proof (induction bs)
  case Nil
  then show ?case by simp
next
  case (Cons b bs)
  have "set (snd b) \<inter> set (concat (map snd bs)) = {}"
  proof (rule ccontr)
    assume "set (snd b) \<inter> set (concat (map snd bs)) \<noteq> {}"
    then obtain c b' where c: "c \<in> set (snd b)" "b' \<in> set bs" "c \<in> set (snd b')" by auto
    with Cons.prems(3) have "owner c = fst b" "owner c = fst b'" by auto
    then have "fst b \<in> fst ` set bs" using c(2) by (metis imageI)
    with Cons.prems(1) show False by simp
  qed
  with Cons show ?case by simp
qed

section \<open>The vote accepts an answer never missing from the tally\<close>

lemma consensus_never_undefined: "consensus raw rs \<noteq> Rejected Undefined"
proof (cases "card (set_mset (payloads raw rs)) < 2")
  case True
  then have "consensus raw rs = promise_any rs" by (rule consensus_few)
  then show ?thesis by (simp add: promise_any_def split: list.splits)
next
  case False
  then have two: "2 \<le> card (set_mset (payloads raw rs))" by simp
  from consensus_many[OF two] obtain a b rest where
    s: "sorteds_of (snd (tally raw rs)) = a # b # rest" by blast
  note c = consensus_sorted[OF two s]
  have "(fst a, snd a) \<in> set (snd (tally raw rs))"
    using tally_sorteds(4)[OF s] by simp
  then have "fst a \<in># payloads raw rs"
    using tally_counters_entry[of "fst a" "snd a" raw rs] by simp
  from key_has_value[OF this] c show ?thesis by auto
qed

text \<open>The three ways a round can end.\<close>

lemma consensus_outcomes:
  "(\<exists>v. consensus raw rs = Fulfilled v \<and> v \<in> set (fulfilleds rs))
   \<or> (fulfilleds rs = [] \<and> consensus raw rs = Rejected (AggregateError (rejections rs)))
   \<or> (2 \<le> card (set_mset (payloads raw rs)) \<and> consensus raw rs = Rejected CouldNotChooseTruth)"
proof (cases "card (set_mset (payloads raw rs)) < 2")
  case True
  then have c: "consensus raw rs = promise_any rs" by (rule consensus_few)
  show ?thesis
  proof (cases "fulfilleds rs")
    case Nil
    with c show ?thesis by (simp add: promise_any_def)
  next
    case (Cons v vs)
    with c have "consensus raw rs = Fulfilled v \<and> v \<in> set (fulfilleds rs)"
      by (simp add: promise_any_def)
    then show ?thesis by blast
  qed
next
  case False
  then have two: "2 \<le> card (set_mset (payloads raw rs))" by simp
  from consensus_many[OF two] obtain a b rest where
    s: "sorteds_of (snd (tally raw rs)) = a # b # rest" by blast
  note c = consensus_sorted[OF two s]
  show ?thesis
  proof (cases "snd a = snd b")
    case True
    with c two show ?thesis by simp
  next
    case False
    have "(fst a, snd a) \<in> set (snd (tally raw rs))"
      using tally_sorteds(4)[OF s] by simp
    then have "fst a \<in># payloads raw rs"
      using tally_counters_entry[of "fst a" "snd a" raw rs] by simp
    from key_has_value[OF this] obtain v where
      "map_of (fst (tally raw rs)) (fst a) = Some v" "v \<in> set (fulfilleds rs)" by blast
    with c False have "consensus raw rs = Fulfilled v \<and> v \<in> set (fulfilleds rs)" by simp
    then show ?thesis by blast
  qed
qed

lemma fetch_body_consensus:
  assumes "brume ethereum (chainId ethereum) = Some pools"
  shows "fst (fetch_body E ethereum init) = consensus (raw_of E) (circuit_outcomes E init pools)"
  using assms by (simp add: fetch_body_def circuit_outcomes_def Let_def comp_def)

lemma runWithPool_consensus:
  assumes "tryGet pools i = Inr pool"
  shows "fst (runWithPoolOrThrow E init pools i) =
           consensus (raw_of E) (connection_outcomes E init pool)"
  using assms by (simp add: runWithPoolOrThrow_def connection_outcomes_def Let_def comp_def)

lemma runWithPool_slot_error:
  assumes "tryGet pools i = Inl e"
  shows "fst (runWithPoolOrThrow E init pools i) = Rejected e"
  using assms by (simp add: runWithPoolOrThrow_def)

lemma fetch_pending:
  "\<not> list_all settles (awaits_of ethereum) \<Longrightarrow>
     tryEthereumFetch_awaited settles E ethereum init = None"
  by (simp add: tryEthereumFetch_awaited_def)

section \<open>The properties of the specification\<close>

text \<open>
  C1. In a round with at least two distinct successful payloads, one of which occurs
  strictly more often than every other, the vote returns that payload: the value it
  returns is the last successful outcome that serialises to it. Both levels of the fetch
  run this same vote. The instance below is the tally 3-and-2.
\<close>

theorem strict_plurality_is_trusted:
  assumes "2 \<le> card (set_mset (payloads raw rs))"
    and "k \<in># payloads raw rs"
    and "\<forall>k'. k' \<noteq> k \<longrightarrow> count (payloads raw rs) k' < count (payloads raw rs) k"
  shows "consensus raw rs = Fulfilled (last (filter (\<lambda>v. raw v = k) (fulfilleds rs)))
       \<and> raw (last (filter (\<lambda>v. raw v = k) (fulfilleds rs))) = k"
proof -
  from key_has_value[OF assms(2)]
  have "raw (last (filter (\<lambda>v. raw v = k) (fulfilleds rs))) = k" by auto
  with consensus_plurality[OF assms] show ?thesis by simp
qed

theorem strict_plurality_is_trusted_witness:
  "2 \<le> card (set_mset (payloads (\<lambda>v. v)
        [Fulfilled ''P'', Fulfilled ''Q'', Fulfilled ''P'', Fulfilled ''Q'', Fulfilled ''P'']))
   \<and> ''P'' \<in># payloads (\<lambda>v. v)
        [Fulfilled ''P'', Fulfilled ''Q'', Fulfilled ''P'', Fulfilled ''Q'', Fulfilled ''P'']
   \<and> count (payloads (\<lambda>v. v)
        [Fulfilled ''P'', Fulfilled ''Q'', Fulfilled ''P'', Fulfilled ''Q'', Fulfilled ''P'']) ''P'' = 3
   \<and> count (payloads (\<lambda>v. v)
        [Fulfilled ''P'', Fulfilled ''Q'', Fulfilled ''P'', Fulfilled ''Q'', Fulfilled ''P'']) ''Q'' = 2
   \<and> consensus (\<lambda>v. v)
        [Fulfilled ''P'', Fulfilled ''Q'', Fulfilled ''P'', Fulfilled ''Q'', Fulfilled ''P'']
      = Fulfilled ''P''"
proof -
  let ?rs = "[Fulfilled ''P'', Fulfilled ''Q'', Fulfilled ''P'', Fulfilled ''Q'', Fulfilled ''P'']
              :: string settled list"
  have p: "payloads (\<lambda>v. v) ?rs = {#''P'', ''Q'', ''P'', ''Q'', ''P''#}"
    by (simp add: payloads_def)
  have "set_mset (payloads (\<lambda>v. v) ?rs) = {''P'', ''Q''}" unfolding p by auto
  then have h1: "2 \<le> card (set_mset (payloads (\<lambda>v. v) ?rs))" by simp
  have h2: "''P'' \<in># payloads (\<lambda>v. v) ?rs" unfolding p by simp
  have h3: "\<forall>k'. k' \<noteq> ''P'' \<longrightarrow>
              count (payloads (\<lambda>v. v) ?rs) k' < count (payloads (\<lambda>v. v) ?rs) ''P''"
    unfolding p by simp
  have c: "count (payloads (\<lambda>v. v) ?rs) ''P'' = 3" "count (payloads (\<lambda>v. v) ?rs) ''Q'' = 2"
    unfolding p by simp_all
  from strict_plurality_is_trusted[OF h1 h2 h3] h1 h2 c show ?thesis by simp
qed

text \<open>
  C2. In a round with at least two distinct successful payloads whose two highest
  occurrence counts are equal (two distinct payloads share the highest count), the vote
  fails with the error \<^verbatim>\<open>Could not choose truth\<close> and returns no payload. The instance
  below is the tally 3-and-3.
\<close>

theorem tie_is_ambiguous:
  assumes "k1 \<in># payloads raw rs" and "k2 \<in># payloads raw rs" and "k1 \<noteq> k2"
    and "count (payloads raw rs) k1 = count (payloads raw rs) k2"
    and "\<forall>k. count (payloads raw rs) k \<le> count (payloads raw rs) k1"
  shows "consensus raw rs = Rejected CouldNotChooseTruth"
  using assms by (rule consensus_tie)

theorem tie_is_ambiguous_witness:
  "''P'' \<in># payloads (\<lambda>v. v)
      [Fulfilled ''P'', Fulfilled ''Q'', Fulfilled ''P'', Fulfilled ''Q'', Fulfilled ''Q'', Fulfilled ''P'']
   \<and> ''Q'' \<in># payloads (\<lambda>v. v)
      [Fulfilled ''P'', Fulfilled ''Q'', Fulfilled ''P'', Fulfilled ''Q'', Fulfilled ''Q'', Fulfilled ''P'']
   \<and> ''P'' \<noteq> ''Q''
   \<and> count (payloads (\<lambda>v. v)
      [Fulfilled ''P'', Fulfilled ''Q'', Fulfilled ''P'', Fulfilled ''Q'', Fulfilled ''Q'', Fulfilled ''P'']) ''P'' = 3
   \<and> count (payloads (\<lambda>v. v)
      [Fulfilled ''P'', Fulfilled ''Q'', Fulfilled ''P'', Fulfilled ''Q'', Fulfilled ''Q'', Fulfilled ''P'']) ''Q'' = 3
   \<and> consensus (\<lambda>v. v)
      [Fulfilled ''P'', Fulfilled ''Q'', Fulfilled ''P'', Fulfilled ''Q'', Fulfilled ''Q'', Fulfilled ''P'']
      = Rejected CouldNotChooseTruth"
proof -
  let ?rs = "[Fulfilled ''P'', Fulfilled ''Q'', Fulfilled ''P'', Fulfilled ''Q'', Fulfilled ''Q'',
              Fulfilled ''P''] :: string settled list"
  have p: "payloads (\<lambda>v. v) ?rs = {#''P'', ''Q'', ''P'', ''Q'', ''Q'', ''P''#}"
    by (simp add: payloads_def)
  have h1: "''P'' \<in># payloads (\<lambda>v. v) ?rs" and h2: "''Q'' \<in># payloads (\<lambda>v. v) ?rs"
    unfolding p by simp_all
  have h3: "''P'' \<noteq> ''Q''" by simp
  have c: "count (payloads (\<lambda>v. v) ?rs) ''P'' = 3" "count (payloads (\<lambda>v. v) ?rs) ''Q'' = 3"
    unfolding p by simp_all
  have h4: "count (payloads (\<lambda>v. v) ?rs) ''P'' = count (payloads (\<lambda>v. v) ?rs) ''Q''"
    using c by simp
  have h5: "\<forall>k. count (payloads (\<lambda>v. v) ?rs) k \<le> count (payloads (\<lambda>v. v) ?rs) ''P''"
    unfolding p by simp
  from tie_is_ambiguous[OF h1 h2 h3 h4 h5] h1 h2 c show ?thesis by simp
qed

text \<open>
  C3. A round discards the failed outcomes before it counts: the tally of a list of
  outcomes is the tally of its successful outcomes alone, the counts add up to the number
  of successful outcomes, and an answer that the vote returns is the value of a successful
  outcome.
\<close>

theorem failures_are_discarded:
  "tally raw rs = tally raw (map Fulfilled (fulfilleds rs))
   \<and> sum_list (map snd (snd (tally raw rs))) = length (fulfilleds rs)
   \<and> (\<forall>v. consensus raw rs = Fulfilled v \<longrightarrow> v \<in> set (fulfilleds rs))"
  using tally_ignores_rejected[of raw rs] tally_counts_sum[of raw rs]
    consensus_fulfilled_member[of raw rs]
  by blast

theorem failures_are_discarded_witness:
  "consensus (\<lambda>v. v) [Rejected Panic, Fulfilled ''P'', Rejected (TransportError ''timeout'')]
     = Fulfilled ''P''
   \<and> ''P'' \<in> set (fulfilleds [Rejected Panic, Fulfilled ''P'', Rejected (TransportError ''timeout'')])
   \<and> snd (tally (\<lambda>v. v) [Rejected Panic, Fulfilled ''P'', Rejected (TransportError ''timeout'')])
     = [(''P'', 1)]"
proof -
  let ?rs = "[Rejected Panic, Fulfilled ''P'', Rejected (TransportError ''timeout'')]
              :: string settled list"
  have h: "consensus (\<lambda>v. v) ?rs = Fulfilled ''P''"
    by (simp add: consensus_def tally_def promise_any_def)
  have t: "snd (tally (\<lambda>v. v) ?rs) = [(''P'', 1)]"
    by (simp add: tally_def)
  from failures_are_discarded[of "\<lambda>v. v" ?rs] h have "''P'' \<in> set (fulfilleds ?rs)" by blast
  with h t show ?thesis by simp
qed

text \<open>
  C4. In a round where exactly one distinct payload survives, whatever its count, the vote
  returns it: the value returned is the first successful outcome, which serialises to that
  payload.
\<close>

theorem single_payload_is_trusted:
  assumes "set_mset (payloads raw rs) = {k}"
  shows "consensus raw rs = Fulfilled (hd (fulfilleds rs)) \<and> raw (hd (fulfilleds rs)) = k"
  using assms by (rule consensus_unique)

theorem single_payload_is_trusted_witness:
  "set_mset (payloads (\<lambda>v. v) [Rejected Panic, Fulfilled ''P'', Fulfilled ''P'', Rejected NoneError])
     = {''P''}
   \<and> consensus (\<lambda>v. v) [Rejected Panic, Fulfilled ''P'', Fulfilled ''P'', Rejected NoneError]
     = Fulfilled ''P''"
proof -
  let ?rs = "[Rejected Panic, Fulfilled ''P'', Fulfilled ''P'', Rejected NoneError]
              :: string settled list"
  have h: "set_mset (payloads (\<lambda>v. v) ?rs) = {''P''}" by (simp add: payloads_def)
  from single_payload_is_trusted[OF h] h show ?thesis by simp
qed

text \<open>
  C5. A round in which every outcome is a failure (also a round with no outcome at all)
  returns no payload: it fails with the \<^verbatim>\<open>AggregateError\<close> of \<^verbatim>\<open>Promise.any\<close>, which lists
  the failures in order.
\<close>

theorem all_failures_is_no_response:
  "consensus raw (map Rejected es) = Rejected (AggregateError es)"
proof -
  have f: "fulfilleds (map Rejected es) = ([] :: 'a list)" by (induction es) simp_all
  have r: "rejections (map Rejected es :: 'a settled list) = es" by (induction es) simp_all
  have "payloads raw (map Rejected es) = {#}" by (simp add: payloads_def f)
  from consensus_none[OF this] r show ?thesis by simp
qed

theorem all_failures_is_no_response_witness:
  "consensus (\<lambda>v :: string. v) [Rejected Panic, Rejected (TransportError ''timeout'')]
     = Rejected (AggregateError [Panic, TransportError ''timeout''])"
  using all_failures_is_no_response[of "\<lambda>v :: string. v" "[Panic, TransportError ''timeout'']"]
  by simp

text \<open>
  C6. The worked scenario: a directory entry with two circuits of two connections; both
  connections of circuit A answer \<open>P1\<close>, those of circuit B answer \<open>P1\<close> and \<open>P2\<close>, which
  serialise differently. Circuit A resolves to \<open>P1\<close>, circuit B fails with
  \<^verbatim>\<open>Could not choose truth\<close>, and the fetch returns \<open>Ok P1\<close>.
\<close>

theorem worked_scenario:
  assumes dir: "brume ethereum (chainId ethereum) = Some [Inr A, Inr B]"
    and len: "length A = 2" "length B = 2"
    and a: "fst (runWithConnOrThrow E init A 0) = Fulfilled P1"
           "fst (runWithConnOrThrow E init A 1) = Fulfilled P1"
    and b: "fst (runWithConnOrThrow E init B 0) = Fulfilled P1"
           "fst (runWithConnOrThrow E init B 1) = Fulfilled P2"
    and ne: "raw_of E P1 \<noteq> raw_of E P2"
  shows "fst (runWithPoolOrThrow E init [Inr A, Inr B] 0) = Fulfilled P1
       \<and> fst (runWithPoolOrThrow E init [Inr A, Inr B] 1) = Rejected CouldNotChooseTruth
       \<and> fst (tryEthereumFetch E ethereum init) = Returns (Ok P1)"
proof -
  let ?pools = "[Inr A, Inr B]"
  have gA: "tryGet ?pools 0 = Inr A" and gB: "tryGet ?pools 1 = Inr B"
    by (simp_all add: tryGet_def)
  have A: "fst (runWithPoolOrThrow E init ?pools 0) = Fulfilled P1"
    using runWithPool_two[OF gA len(1), of E init] a by (simp add: consensus_unanimous2)
  have B: "fst (runWithPoolOrThrow E init ?pools 1) = Rejected CouldNotChooseTruth"
    using runWithPool_two[OF gB len(2), of E init] b ne by (simp add: consensus_split2)
  have "[0..<capacity ?pools] = [0, 1]" by (simp add: capacity_def upt_rec)
  then have "fst (fetch_body E ethereum init) =
      consensus (raw_of E) [fst (runWithPoolOrThrow E init ?pools 0), fst (runWithPoolOrThrow E init ?pools 1)]"
    using dir by (simp add: fetch_body_def Let_def)
  with A B have "fst (fetch_body E ethereum init) = Fulfilled P1"
    by (simp add: consensus_one_survivor)
  then have "fst (tryEthereumFetch E ethereum init) = Returns (Ok P1)"
    by (simp add: tryEthereumFetch_fst runAndDoubleWrap_def)
  with A B show ?thesis by simp
qed

theorem worked_scenario_witness:
  "fst (runWithPoolOrThrow example_env ''eth_call'' [Inr circuit_A, Inr circuit_B] 0)
     = Fulfilled (Data ''P1'')
   \<and> fst (runWithPoolOrThrow example_env ''eth_call'' [Inr circuit_A, Inr circuit_B] 1)
     = Rejected CouldNotChooseTruth
   \<and> fst (tryEthereumFetch example_env example_context ''eth_call'') = Returns (Ok (Data ''P1''))"
proof -
  have dir: "brume example_context (chainId example_context) = Some [Inr circuit_A, Inr circuit_B]"
    by (simp add: example_context_def)
  have len: "length circuit_A = 2" "length circuit_B = 2"
    by (simp_all add: circuit_A_def circuit_B_def)
  have a: "fst (runWithConnOrThrow example_env ''eth_call'' circuit_A 0) = Fulfilled (Data ''P1'')"
    "fst (runWithConnOrThrow example_env ''eth_call'' circuit_A 1) = Fulfilled (Data ''P1'')"
    by (simp_all add: runWithConnOrThrow_def tryGet_def circuit_A_def example_env_def
        unwrap_rewrap_def)
  have b: "fst (runWithConnOrThrow example_env ''eth_call'' circuit_B 0) = Fulfilled (Data ''P1'')"
    "fst (runWithConnOrThrow example_env ''eth_call'' circuit_B 1) = Fulfilled (Data ''P2'')"
    by (simp_all add: runWithConnOrThrow_def tryGet_def circuit_B_def example_env_def
        unwrap_rewrap_def)
  have ne: "raw_of example_env (Data ''P1'') \<noteq> raw_of example_env (Data ''P2'')"
    by (simp add: raw_of_def example_env_def)
  from worked_scenario[OF dir len a b ne] show ?thesis .
qed

text \<open>
  C7. With no directory entry for the chain, the fetch returns \<open>Err\<close> and has made no
  transport call. With an entry, the transport calls made are those due to every slot of
  every pool of the entry, each once, in the order of the indices: the whole capacity of
  the directory and of each of its pools, not a sample.
\<close>

theorem fetch_fans_out:
  "(brume ethereum (chainId ethereum) = None \<longrightarrow>
      tryEthereumFetch E ethereum init = (Returns (Err NoneError), []))
   \<and> (\<forall>pools. brume ethereum (chainId ethereum) = Some pools \<longrightarrow>
        snd (tryEthereumFetch E ethereum init) = concat (map (circuit_calls init) pools))"
  by (auto simp: tryEthereumFetch_snd fetch_body_events)
    (simp add: tryEthereumFetch_def fetch_body_def runAndDoubleWrap_def)

theorem fetch_fans_out_witness:
  "brume (example_context\<lparr>chainId := 5\<rparr>) (chainId (example_context\<lparr>chainId := 5\<rparr>)) = None
   \<and> tryEthereumFetch example_env (example_context\<lparr>chainId := 5\<rparr>) ''eth_call''
       = (Returns (Err NoneError), [])
   \<and> brume example_context (chainId example_context) = Some [Inr circuit_A, Inr circuit_B]
   \<and> snd (tryEthereumFetch example_env example_context ''eth_call'')
       = [FetchWithCircuit ''P1'' ''a1'' (0, ''eth_call''),
          FetchWithCircuit ''P1'' ''a2'' (0, ''eth_call''),
          FetchWithCircuit ''P1'' ''b1'' (0, ''eth_call''),
          FetchWithCircuit ''P2'' ''b2'' (0, ''eth_call'')]"
proof -
  have h1: "brume (example_context\<lparr>chainId := 5\<rparr>) (chainId (example_context\<lparr>chainId := 5\<rparr>)) = None"
    by (simp add: example_context_def)
  have h2: "brume example_context (chainId example_context) = Some [Inr circuit_A, Inr circuit_B]"
    by (simp add: example_context_def)
  have c: "concat (map (circuit_calls ''eth_call'') [Inr circuit_A, Inr circuit_B])
       = [FetchWithCircuit ''P1'' ''a1'' (0, ''eth_call''),
          FetchWithCircuit ''P1'' ''a2'' (0, ''eth_call''),
          FetchWithCircuit ''P1'' ''b1'' (0, ''eth_call''),
          FetchWithCircuit ''P2'' ''b2'' (0, ''eth_call'')]"
    by (simp add: circuit_calls_def transport_call_def circuit_A_def circuit_B_def prepare_def)
  from fetch_fans_out[of "example_context\<lparr>chainId := 5\<rparr>" example_env "''eth_call''"] h1
  have 1: "tryEthereumFetch example_env (example_context\<lparr>chainId := 5\<rparr>) ''eth_call''
       = (Returns (Err NoneError), [])" by blast
  from fetch_fans_out[of example_context example_env "''eth_call''"] h2
  have "snd (tryEthereumFetch example_env example_context ''eth_call'')
       = concat (map (circuit_calls ''eth_call'') [Inr circuit_A, Inr circuit_B])" by blast
  with c h1 h2 1 show ?thesis by simp
qed

text \<open>
  C8. Within one call of the retry fetch, given that the call returns: no pool is picked
  twice (\<^verbatim>\<open>allTriedPools\<close> ends without duplicates and is the list of the pools picked, in
  order), and within the inner loop run on a picked pool no connection is picked twice;
  when each picked connection belongs to the pool it was picked from, no connection is
  picked twice in the whole call. One pass of the \<^verbatim>\<open>while\<close> loop that picks a candidate
  picks one that is not in the set and adds exactly that candidate; a pass that leaves
  with an error leaves the set as it was.
\<close>

theorem exclusion_sets_never_repeat:
  assumes "tryEthereumFetch_loop E W pools init pdraws cdraws = Some (r, s')"
  shows "distinct (allTriedPools s')
       \<and> map fst (picks s') = allTriedPools s'
       \<and> (\<forall>b \<in> set (picks s'). distinct (snd b))
       \<and> ((\<forall>b \<in> set (picks s'). \<forall>c \<in> set (snd b). owner c = fst b) \<longrightarrow>
            distinct (concat (map snd (picks s'))))
       \<and> (\<forall>tried draws x tried' draws'.
            select tried draws = Some (Inr x, tried', draws') \<longrightarrow>
              x \<notin> set tried \<and> tried' = tried @ [x])
       \<and> (\<forall>tried draws l tried' draws'.
            select tried draws = Some (Inl l, tried', draws') \<longrightarrow> tried' = tried)"
proof -
  let ?s = "\<lparr>pool_draws = pdraws, conn_draws = cdraws, allTriedPools = [], picks = []\<rparr>"
  have g: "pools_grow ?s s'"
  proof (cases pools)
    case None
    with assms have "s' = ?s" by (simp add: tryEthereumFetch_loop_def)
    then show ?thesis by (simp add: pools_grow_refl)
  next
    case (Some ps)
    with assms have "tryLoop (pool_looper E W init) (pool_capacity W ps) [] ?s = Some (r, s')"
      by (simp add: tryEthereumFetch_loop_def)
    then show ?thesis by (rule outer_loop_grows)
  qed
  then obtain new where n: "allTriedPools s' = map fst new" "picks s' = new"
    "distinct (map fst new)" "\<forall>b \<in> set new. distinct (snd b)"
    unfolding pools_grow_def by auto
  then have run: "distinct (allTriedPools s')
       \<and> map fst (picks s') = allTriedPools s'
       \<and> (\<forall>b \<in> set (picks s'). distinct (snd b))
       \<and> ((\<forall>b \<in> set (picks s'). \<forall>c \<in> set (snd b). owner c = fst b) \<longrightarrow>
            distinct (concat (map snd (picks s'))))"
    using distinct_concat_owner[of new owner] by simp
  have pick: "\<forall>tried draws x tried' draws'.
            select tried draws = Some (Inr x, tried', draws') \<longrightarrow>
              x \<notin> set tried \<and> tried' = tried @ [x]"
    using select_sound by fastforce
  have leave: "\<forall>tried draws l tried' draws'.
            select tried draws = Some (Inl l, tried', draws') \<longrightarrow> tried' = tried"
    using select_sound by fastforce
  from run pick leave show ?thesis by blast
qed

theorem exclusion_sets_never_repeat_witness:
  "tryEthereumFetch_loop example_env example_world (Some 0) ''eth_call''
      [Inr 1, Inr 1, Inr 2] [Inr 3, Inr 3, Inr 4, Inr 6, Inr 6, Inr 5]
     = Some (Returns (Ok (Data ''P1'')),
             \<lparr>pool_draws = [], conn_draws = [], allTriedPools = [1, 2],
              picks = [(1, [3, 4]), (2, [6, 5])]\<rparr>)
   \<and> distinct ([1, 2] :: ref list)
   \<and> distinct (concat (map snd [(1 :: ref, [3, 4 :: ref]), (2, [6, 5])]))
   \<and> select [1] [Inr 1, Inr 2] = Some (Inr 2, [1, 2], [])"
proof -
  have run: "tryEthereumFetch_loop example_env example_world (Some 0) ''eth_call''
      [Inr 1, Inr 1, Inr 2] [Inr 3, Inr 3, Inr 4, Inr 6, Inr 6, Inr 5]
     = Some (Returns (Ok (Data ''P1'')),
             \<lparr>pool_draws = [], conn_draws = [], allTriedPools = [1, 2],
              picks = [(1, [3, 4]), (2, [6, 5])]\<rparr>)"
    by (simp add: tryEthereumFetch_loop_def pool_looper_def conn_looper_def example_world_def
        example_env_def set_add_def rewrap_or_retry_def prepare_def numeral_2_eq_2)
  have sel: "select [1] [Inr 1, Inr 2] = Some (Inr 2, [1, 2], [])"
    by (simp add: set_add_def)
  from exclusion_sets_never_repeat[OF run, of "\<lambda>c. if c \<in> {3, 4} then 1 else 2"] run sel
  show ?thesis by simp
qed

text \<open>
  C9. One round does not depend on the order of its outcomes: two lists with the same
  multiset of outcomes both succeed or both fail, fail in the same way, and accept
  payloads with the same serialisation.
\<close>

theorem vote_is_order_independent:
  assumes "mset rs = mset rs'"
  shows "verdict_of raw (consensus raw rs) = verdict_of raw (consensus raw rs')"
  using payloads_mset[OF assms] by (rule verdict_determined)

theorem vote_is_order_independent_witness:
  "mset [Fulfilled (1 :: nat, ''P''), Fulfilled (2, ''Q''), Rejected Panic, Fulfilled (3, ''P'')]
     = mset [Fulfilled (3, ''P''), Rejected Panic, Fulfilled (1, ''P''), Fulfilled (2, ''Q'')]
   \<and> consensus snd [Fulfilled (1 :: nat, ''P''), Fulfilled (2, ''Q''), Rejected Panic, Fulfilled (3, ''P'')]
     = Fulfilled (3, ''P'')
   \<and> consensus snd [Fulfilled (3 :: nat, ''P''), Rejected Panic, Fulfilled (1, ''P''), Fulfilled (2, ''Q'')]
     = Fulfilled (1, ''P'')
   \<and> verdict_of snd (consensus snd
        [Fulfilled (1 :: nat, ''P''), Fulfilled (2, ''Q''), Rejected Panic, Fulfilled (3, ''P'')])
     = verdict_of snd (consensus snd
        [Fulfilled (3 :: nat, ''P''), Rejected Panic, Fulfilled (1, ''P''), Fulfilled (2, ''Q'')])"
proof -
  let ?rs = "[Fulfilled (1 :: nat, ''P''), Fulfilled (2, ''Q''), Rejected Panic, Fulfilled (3, ''P'')]"
  let ?rs' = "[Fulfilled (3 :: nat, ''P''), Rejected Panic, Fulfilled (1, ''P''), Fulfilled (2, ''Q'')]"
  have h: "mset ?rs = mset ?rs'" by simp
  have c1: "consensus snd ?rs = Fulfilled (3, ''P'')"
    by (simp add: consensus_def tally_def sorteds_of_def)
  have c2: "consensus snd ?rs' = Fulfilled (1, ''P'')"
    by (simp add: consensus_def tally_def sorteds_of_def)
  from vote_is_order_independent[OF h, of snd] h c1 c2 show ?thesis by simp
qed

text \<open>
  C10. \<^verbatim>\<open>tryEthereumFetch\<close> returns a \<^verbatim>\<open>Result\<close> to its caller and never throws, for every
  directory, request and pattern of successes and failures, provided every promise it
  awaits settles. Every failure inside is contained: without a directory entry the result
  is \<open>Err NoneError\<close>; with one, the result is \<open>Ok\<close> of a value that a circuit produced, or
  \<open>Err\<close> of the \<^verbatim>\<open>AggregateError\<close> that lists every circuit's failure when no circuit
  survived, or \<open>Err\<close> of \<^verbatim>\<open>Could not choose truth\<close>. A circuit in turn ends with a value
  that one of its connections produced, or fails with the \<^verbatim>\<open>AggregateError\<close> listing every
  connection's failure (transport error, panic, unusable slot), or with
  \<^verbatim>\<open>Could not choose truth\<close>: a connection's failure never leaves the fetch on its own.
\<close>

theorem fetch_never_throws:
  assumes "list_all settles (awaits_of ethereum)"
  shows "(\<exists>r. tryEthereumFetch_awaited settles E ethereum init = Some (Returns r))
   \<and> (brume ethereum (chainId ethereum) = None \<longrightarrow>
        tryEthereumFetch_awaited settles E ethereum init = Some (Returns (Err NoneError)))
   \<and> (\<forall>pools. brume ethereum (chainId ethereum) = Some pools \<longrightarrow>
        (\<exists>v. tryEthereumFetch_awaited settles E ethereum init = Some (Returns (Ok v))
              \<and> v \<in> set (fulfilleds (circuit_outcomes E init pools)))
        \<or> (fulfilleds (circuit_outcomes E init pools) = []
            \<and> tryEthereumFetch_awaited settles E ethereum init
                = Some (Returns (Err (AggregateError (rejections (circuit_outcomes E init pools))))))
        \<or> (2 \<le> card (set_mset (payloads (raw_of E) (circuit_outcomes E init pools)))
            \<and> tryEthereumFetch_awaited settles E ethereum init
                = Some (Returns (Err CouldNotChooseTruth))))
   \<and> (\<forall>pools i pool. tryGet pools i = Inr pool \<longrightarrow>
        (\<exists>v. fst (runWithPoolOrThrow E init pools i) = Fulfilled v
              \<and> v \<in> set (fulfilleds (connection_outcomes E init pool)))
        \<or> (fulfilleds (connection_outcomes E init pool) = []
            \<and> fst (runWithPoolOrThrow E init pools i)
                = Rejected (AggregateError (rejections (connection_outcomes E init pool))))
        \<or> (2 \<le> card (set_mset (payloads (raw_of E) (connection_outcomes E init pool)))
            \<and> fst (runWithPoolOrThrow E init pools i) = Rejected CouldNotChooseTruth))"
proof -
  let ?call = "tryEthereumFetch_awaited settles E ethereum init"
  have call: "?call = Some (runAndDoubleWrap (fst (fetch_body E ethereum init)))"
    using assms by (simp add: tryEthereumFetch_awaited_def tryEthereumFetch_fst)
  have 1: "\<exists>r. ?call = Some (Returns r)"
    unfolding call by (cases "fst (fetch_body E ethereum init)") (simp_all add: runAndDoubleWrap_def)
  have 2: "brume ethereum (chainId ethereum) = None \<longrightarrow> ?call = Some (Returns (Err NoneError))"
    unfolding call by (simp add: fetch_body_def runAndDoubleWrap_def)
  have 3: "(\<exists>v. ?call = Some (Returns (Ok v)) \<and> v \<in> set (fulfilleds (circuit_outcomes E init pools)))
        \<or> (fulfilleds (circuit_outcomes E init pools) = []
            \<and> ?call = Some (Returns (Err (AggregateError (rejections (circuit_outcomes E init pools))))))
        \<or> (2 \<le> card (set_mset (payloads (raw_of E) (circuit_outcomes E init pools)))
            \<and> ?call = Some (Returns (Err CouldNotChooseTruth)))"
    if dir: "brume ethereum (chainId ethereum) = Some pools" for pools
  proof -
    note b = fetch_body_consensus[OF dir, of E init]
    from consensus_outcomes[of "raw_of E" "circuit_outcomes E init pools"]
    show ?thesis
    proof (elim disjE exE conjE)
      fix v
      assume "consensus (raw_of E) (circuit_outcomes E init pools) = Fulfilled v"
        and m: "v \<in> set (fulfilleds (circuit_outcomes E init pools))"
      with b have "?call = Some (Returns (Ok v))"
        unfolding call by (simp add: runAndDoubleWrap_def)
      with m show ?thesis by blast
    next
      assume e: "fulfilleds (circuit_outcomes E init pools) = []"
        and "consensus (raw_of E) (circuit_outcomes E init pools)
              = Rejected (AggregateError (rejections (circuit_outcomes E init pools)))"
      with b have "?call = Some (Returns (Err (AggregateError (rejections (circuit_outcomes E init pools)))))"
        unfolding call by (simp add: runAndDoubleWrap_def)
      with e show ?thesis by blast
    next
      assume t: "2 \<le> card (set_mset (payloads (raw_of E) (circuit_outcomes E init pools)))"
        and "consensus (raw_of E) (circuit_outcomes E init pools) = Rejected CouldNotChooseTruth"
      with b have "?call = Some (Returns (Err CouldNotChooseTruth))"
        unfolding call by (simp add: runAndDoubleWrap_def)
      with t show ?thesis by blast
    qed
  qed
  have 4: "(\<exists>v. fst (runWithPoolOrThrow E init pools i) = Fulfilled v
              \<and> v \<in> set (fulfilleds (connection_outcomes E init pool)))
        \<or> (fulfilleds (connection_outcomes E init pool) = []
            \<and> fst (runWithPoolOrThrow E init pools i)
                = Rejected (AggregateError (rejections (connection_outcomes E init pool))))
        \<or> (2 \<le> card (set_mset (payloads (raw_of E) (connection_outcomes E init pool)))
            \<and> fst (runWithPoolOrThrow E init pools i) = Rejected CouldNotChooseTruth)"
    if g: "tryGet pools i = Inr pool" for pools :: "entry pool pool" and i pool
    using consensus_outcomes[of "raw_of E" "connection_outcomes E init pool"]
    unfolding runWithPool_consensus[OF g, of E init] .
  from 1 2 3 4 show ?thesis by blast
qed

theorem fetch_never_throws_witness:
  "list_all (\<lambda>p. True) (awaits_of example_context_down)
   \<and> brume example_context_down (chainId example_context_down) = Some [Inr circuit_down]
   \<and> tryGet [Inr circuit_down] 0 = Inr circuit_down
   \<and> connection_outcomes example_env ''eth_call'' circuit_down
       = [Rejected (TransportError ''timeout''), Rejected Panic, Rejected (SlotError ''closed'')]
   \<and> fst (runWithPoolOrThrow example_env ''eth_call'' [Inr circuit_down] 0)
       = Rejected (AggregateError [TransportError ''timeout'', Panic, SlotError ''closed''])
   \<and> tryEthereumFetch_awaited (\<lambda>p. True) example_env example_context_down ''eth_call''
       = Some (Returns (Err (AggregateError
            [AggregateError [TransportError ''timeout'', Panic, SlotError ''closed'']])))
   \<and> list_all (\<lambda>p. True) (awaits_of (example_context\<lparr>chainId := 5\<rparr>))
   \<and> brume (example_context\<lparr>chainId := 5\<rparr>) (chainId (example_context\<lparr>chainId := 5\<rparr>)) = None
   \<and> tryEthereumFetch_awaited (\<lambda>p. True) example_env (example_context\<lparr>chainId := 5\<rparr>) ''eth_call''
       = Some (Returns (Err NoneError))"
proof -
  let ?down = "[Inr circuit_down] :: entry pool pool"
  have a1: "list_all (\<lambda>p. True) (awaits_of example_context_down)"
    and a2: "list_all (\<lambda>p. True) (awaits_of (example_context\<lparr>chainId := 5\<rparr>))"
    by (simp_all add: list_all_iff)
  have d1: "brume example_context_down (chainId example_context_down) = Some ?down"
    by (simp add: example_context_down_def)
  have d2: "brume (example_context\<lparr>chainId := 5\<rparr>) (chainId (example_context\<lparr>chainId := 5\<rparr>)) = None"
    by (simp add: example_context_def)
  have g: "tryGet ?down 0 = Inr circuit_down" by (simp add: tryGet_def)
  have upt3: "[0..<3] = [0, 1, 2]" by (simp add: upt_rec)
  have co: "connection_outcomes example_env ''eth_call'' circuit_down
       = [Rejected (TransportError ''timeout''), Rejected Panic, Rejected (SlotError ''closed'')]"
    by (simp add: connection_outcomes_def capacity_def circuit_down_def upt3
        runWithConnOrThrow_def tryGet_def example_env_def unwrap_rewrap_def)
  note t1 = fetch_never_throws[OF a1, of example_env "''eth_call''"]
  have pool: "fst (runWithPoolOrThrow example_env ''eth_call'' ?down 0)
       = Rejected (AggregateError [TransportError ''timeout'', Panic, SlotError ''closed''])"
    using t1[THEN conjunct2, THEN conjunct2, THEN conjunct2, rule_format, OF g]
    by (simp add: co payloads_def)
  then have ci: "circuit_outcomes example_env ''eth_call'' ?down
       = [Rejected (AggregateError [TransportError ''timeout'', Panic, SlotError ''closed''])]"
    by (simp add: circuit_outcomes_def capacity_def)
  have r1: "tryEthereumFetch_awaited (\<lambda>p. True) example_env example_context_down ''eth_call''
       = Some (Returns (Err (AggregateError
            [AggregateError [TransportError ''timeout'', Panic, SlotError ''closed'']])))"
    using t1[THEN conjunct2, THEN conjunct2, THEN conjunct1, rule_format, OF d1]
    by (simp add: ci payloads_def)
  from fetch_never_throws[OF a2, of example_env "''eth_call''"] d2
  have r2: "tryEthereumFetch_awaited (\<lambda>p. True) example_env (example_context\<lparr>chainId := 5\<rparr>) ''eth_call''
       = Some (Returns (Err NoneError))" by blast
  from a1 d1 g co pool r1 a2 d2 r2 show ?thesis by blast
qed

end
